theory Spec2Isabelle
  imports Main "HOL-Library.Word" "HOL-Library.AList"
begin

section \<open>The statistics LRU cache of statistics/handle/cache/internal/lru/lru_cache.go\<close>

text \<open>
  The cache has two levels. The outer map (\<open>StatsInnerCache.elements\<close>) holds one
  entry per table; the inner LRU (\<open>innerItemLruCache\<close>) holds one entry per column and
  per index of those tables and evicts from its back.

  Conventions of the embedding.
  \<^item> Go's \<open>int64\<close> is \<open>64 word\<close>; \<open>+\<close> and \<open>-\<close> wrap, and the comparisons of the
    source are the signed ones (\<open>word_sless\<close>, \<open>word_sle\<close>).
  \<^item> A \<open>statistics.TableCacheItem\<close> is a pointer to a column or an index that
    \<open>DropEvicted\<close> mutates in place and that tables, inner entries and copies of the
    cache share. Items therefore live in an explicit store \<open>ref \<Rightarrow> 'i\<close>, and the
    three methods of the interface the cache calls are a parameter of every function
    that needs them (the package \<open>statistics\<close> is not part of the files at hand).
  \<^item> A \<open>*list.Element\<close> of \<open>container/list\<close> is an address \<open>elem\<close>; the list is the
    sequence of the addresses from front to back, and \<open>nodes\<close> gives the
    \<open>lruCacheItem\<close> an element carries.
  \<^item> Go maps that the code ranges over are association lists, ranged over in the
    order of the list (Go leaves the order open); a lookup is \<open>map_of\<close>.
  \<^item> The loop of \<open>evictIfNeeded\<close> need not end for every implementation of the
    item interface, so it is a partial function: \<open>None\<close> is a call that does not
    return.
  \<^item> The counters and the gauge of package \<open>metrics\<close> are write-only and are left out.
\<close>

subsection \<open>Data\<close>

type_synonym int64 = "64 word"

type_synonym ref = nat

type_synonym elem = nat

definition MaxInt64 :: int64 where
  "MaxInt64 = 0x7FFFFFFFFFFFFFFF"

text \<open>
  \<open>statistics.CacheItemMemoryUsage\<close>: of the interface the cache reads
  \<open>TrackingMemUsage()\<close>; \<open>TotalMemoryUsage()\<close> feeds the table's total.
\<close>

record CacheItemMemoryUsage =
  TrackingMemUsage :: int64
  TotalMemoryUsage :: int64

text \<open>
  The zero values \<open>&statistics.ColumnMemUsage{}\<close> and \<open>&statistics.IndexMemUsage{}\<close>
  that \<open>put\<close> and \<open>del\<close> pass to \<open>calculateCost\<close>: every field is 0.
\<close>

definition zeroMemUsage :: CacheItemMemoryUsage where
  "zeroMemUsage = \<lparr>TrackingMemUsage = 0, TotalMemoryUsage = 0\<rparr>"

text \<open>
  The interface \<open>statistics.TableCacheItem\<close>, taken as a parameter: the state of an
  item is a value of type \<open>'i\<close>, \<open>MemoryUsage\<close> and \<open>IsAllEvicted\<close> read it and
  \<open>DropEvicted\<close> (the function \<open>statistics.DropEvicted\<close>) gives the state after the
  in-place mutation.
\<close>

record 'i TableCacheItem =
  MemoryUsage :: "'i \<Rightarrow> CacheItemMemoryUsage"
  DropEvicted :: "'i \<Rightarrow> 'i"
  IsAllEvicted :: "'i \<Rightarrow> bool"

text \<open>The field \<open>id\<close> of the source is \<open>itemID\<close> here (\<open>id\<close> is the identity of HOL).\<close>

record lruCacheItem =
  innerItem :: ref
  innerMemUsage :: CacheItemMemoryUsage
  tblID :: int64
  itemID :: int64
  isIndex :: bool

text \<open>\<open>elements\<close> of the inner LRU: tableID, then isIndex, then column or index ID.\<close>

type_synonym index = "(int64 \<times> (bool \<times> (int64 \<times> elem) list) list) list"

record ('i, 's) innerItemLruCache =
  lru_elements :: index
  nodes :: "elem \<Rightarrow> lruCacheItem"
  cache :: "elem list"
  onEvict :: "(int64 \<Rightarrow> (ref \<Rightarrow> 'i) \<Rightarrow> 's \<Rightarrow> 's) option"
  capacity :: int64
  trackingCost :: int64

text \<open>
  The callback \<open>onEvict\<close> acts on the state \<open>'s\<close> of whoever installed it (the outer
  map, for \<open>StatsInnerCache\<close>) and may read the items.
  The inner operations work on the triple of the LRU, the item store and that state.
\<close>

type_synonym ('i, 's) lru_state = "('i, 's) innerItemLruCache \<times> (ref \<Rightarrow> 'i) \<times> 's"

subsection \<open>container/list\<close>

definition Front_elem :: "elem list \<Rightarrow> elem option" where
  "Front_elem xs = (case xs of [] \<Rightarrow> None | x # _ \<Rightarrow> Some x)"

definition Back :: "elem list \<Rightarrow> elem option" where
  "Back xs = (if xs = [] then None else Some (last xs))"

text \<open>\<open>e.Prev()\<close>: the element before \<open>e\<close>, \<open>nil\<close> when \<open>e\<close> is the front.\<close>

fun Prev :: "elem list \<Rightarrow> elem \<Rightarrow> elem option" where
  "Prev [] e = None"
| "Prev [x] e = None"
| "Prev (x # y # ys) e = (if x = e then None else if y = e then Some x else Prev (y # ys) e)"

definition PushFront :: "elem list \<Rightarrow> elem" where
  "PushFront xs = Suc (fold max xs 0)"

definition MoveToFront :: "elem \<Rightarrow> elem list \<Rightarrow> elem list" where
  "MoveToFront e xs = (if e \<in> set xs then e # remove1 e xs else xs)"

definition Remove :: "elem \<Rightarrow> elem list \<Rightarrow> elem list" where
  "Remove e xs = remove1 e xs"

text \<open>
  \<open>PushFront xs\<close> is the address of the element a call of \<open>l.PushFront\<close> allocates:
  one that no element of the list has.
\<close>

subsection \<open>The three-level index\<close>

text \<open>\<open>c.elements[tblID][isIndex]\<close>; a missing level reads as the nil (empty) map.\<close>

definition lookup2 :: "index \<Rightarrow> int64 \<Rightarrow> bool \<Rightarrow> (int64 \<times> elem) list" where
  "lookup2 m t b =
     (case map_of m t of None \<Rightarrow> []
      | Some v \<Rightarrow> (case map_of v b of None \<Rightarrow> [] | Some s \<Rightarrow> s))"

definition lookup3 :: "index \<Rightarrow> int64 \<Rightarrow> bool \<Rightarrow> int64 \<Rightarrow> elem option" where
  "lookup3 m t b i =
     (case map_of m t of None \<Rightarrow> None
      | Some v \<Rightarrow> (case map_of v b of None \<Rightarrow> None | Some s \<Rightarrow> map_of s i))"

text \<open>
  \<open>v[id] = newElement\<close> of \<open>put\<close>, after the two missing levels, if any, have been made.
\<close>

definition insert3 :: "index \<Rightarrow> int64 \<Rightarrow> bool \<Rightarrow> int64 \<Rightarrow> elem \<Rightarrow> index" where
  "insert3 m t b i e =
     (let v = (case map_of m t of None \<Rightarrow> [] | Some v \<Rightarrow> v);
          s = (case map_of v b of None \<Rightarrow> [] | Some s \<Rightarrow> s)
      in AList.update t (AList.update b (AList.update i e s) v) m)"

text \<open>\<open>delete(c.elements[tblID][isIndex], id)\<close>: nothing happens on a nil map.\<close>

definition delete3 :: "index \<Rightarrow> int64 \<Rightarrow> bool \<Rightarrow> int64 \<Rightarrow> index" where
  "delete3 m t b i =
     (case map_of m t of None \<Rightarrow> m
      | Some v \<Rightarrow>
          (case map_of v b of None \<Rightarrow> m
           | Some s \<Rightarrow> AList.update t (AList.update b (AList.delete i s) v) m))"

subsection \<open>The inner LRU\<close>

definition zeroItem :: lruCacheItem where
  "zeroItem = \<lparr>innerItem = 0, innerMemUsage = zeroMemUsage, tblID = 0, itemID = 0, isIndex = False\<rparr>"

definition newInnerLruCache :: "int64 \<Rightarrow> ('i, 's) innerItemLruCache" where
  "newInnerLruCache c =
     \<lparr>lru_elements = [], nodes = (\<lambda>_. zeroItem), cache = [], onEvict = None,
      capacity = (if word_sless c 1 then MaxInt64 else c), trackingCost = 0\<rparr>"

definition calculateCost ::
  "CacheItemMemoryUsage \<Rightarrow> CacheItemMemoryUsage \<Rightarrow> ('i, 's) innerItemLruCache \<Rightarrow> ('i, 's) innerItemLruCache" where
  "calculateCost newUsage oldUsage c =
     c\<lparr>trackingCost := trackingCost c + (TrackingMemUsage newUsage - TrackingMemUsage oldUsage)\<rparr>"

text \<open>\<open>get\<close>: the three misses of the source are the three \<open>None\<close>s of \<open>lookup3\<close>.\<close>

definition get ::
  "('i, 's) innerItemLruCache \<Rightarrow> int64 \<Rightarrow> int64 \<Rightarrow> bool \<Rightarrow> ('i, 's) innerItemLruCache \<times> lruCacheItem option" where
  "get c tblID' id' isIndex' =
     (case lookup3 (lru_elements c) tblID' isIndex' id' of
        None \<Rightarrow> (c, None)
      | Some ele \<Rightarrow> (c\<lparr>cache := MoveToFront ele (cache c)\<rparr>, Some (nodes c ele)))"

definition del ::
  "('i, 's) innerItemLruCache \<Rightarrow> int64 \<Rightarrow> int64 \<Rightarrow> bool \<Rightarrow> ('i, 's) innerItemLruCache" where
  "del c tblID' id' isIndex' =
     (case lookup3 (lru_elements c) tblID' isIndex' id' of
        None \<Rightarrow> c
      | Some ele \<Rightarrow>
          (let memUsage = innerMemUsage (nodes c ele);
               c1 = c\<lparr>lru_elements := delete3 (lru_elements c) tblID' isIndex' id',
                      cache := Remove ele (cache c)\<rparr>
           in calculateCost zeroMemUsage memUsage c1))"

text \<open>
  \<open>put_body\<close> is \<open>put\<close> up to its \<open>return\<close>; the deferred function, which runs on every
  path, is in \<open>put\<close> below.
\<close>

definition put_body ::
  "int64 \<Rightarrow> int64 \<Rightarrow> bool \<Rightarrow> ref \<Rightarrow> CacheItemMemoryUsage \<Rightarrow> bool \<Rightarrow>
   ('i, 's) innerItemLruCache \<Rightarrow> ('i, 's) innerItemLruCache" where
  "put_body tblID' id' isIndex' item itemMem needMove c =
     (if word_sless (TrackingMemUsage itemMem) 1 then c
      else
        (case lookup3 (lru_elements c) tblID' isIndex' id' of
           Some element \<Rightarrow>
             (let oldItem = nodes c element;
                  oldMemUsage = innerMemUsage oldItem;
                  c1 = c\<lparr>nodes := (nodes c)(element := oldItem\<lparr>innerItem := item, innerMemUsage := itemMem\<rparr>)\<rparr>;
                  c2 = calculateCost itemMem oldMemUsage c1
              in if needMove then c2\<lparr>cache := MoveToFront element (cache c2)\<rparr> else c2)
         | None \<Rightarrow>
             (let newItem = \<lparr>innerItem = item, innerMemUsage = itemMem, tblID = tblID',
                             itemID = id', isIndex = isIndex'\<rparr>;
                  newElement = PushFront (cache c);
                  c1 = c\<lparr>nodes := (nodes c)(newElement := newItem),
                         cache := newElement # cache c,
                         lru_elements := insert3 (lru_elements c) tblID' isIndex' id' newElement\<rparr>
              in calculateCost itemMem zeroMemUsage c1)))"

text \<open>
  One turn of the loop of \<open>evictIfNeeded\<close> at the element \<open>cur\<close> (\<open>curr\<close> of the source): the result is
  \<open>prev\<close>, read before the list changes, and the state after the turn.
\<close>

definition evictStep ::
  "'i TableCacheItem \<Rightarrow> elem \<Rightarrow> ('i, 's) lru_state \<Rightarrow> elem option \<times> ('i, 's) lru_state" where
  "evictStep I cur st =
     (case st of (c, h, s) \<Rightarrow>
        (let prev = Prev (cache c) cur;
             item = nodes c cur;
             oldMem = innerMemUsage item;
             h' = h(innerItem item := DropEvicted I (h (innerItem item)));
             newMem = MemoryUsage I (h' (innerItem item));
             c1 = calculateCost newMem oldMem c;
             c2 = (if TrackingMemUsage newMem = 0 \<or> IsAllEvicted I (h' (innerItem item))
                   then c1\<lparr>cache := Remove cur (cache c1),
                           lru_elements := delete3 (lru_elements c1) (tblID item) (isIndex item) (itemID item)\<rparr>
                   else c1\<lparr>cache := MoveToFront cur (cache c1),
                           nodes := (nodes c1)(cur := item\<lparr>innerMemUsage := newMem\<rparr>)\<rparr>);
             s' = (case onEvict c2 of None \<Rightarrow> s | Some f \<Rightarrow> f (tblID item) h' s)
         in (prev, (c2, h', s'))))"

partial_function (option) evictLoop ::
  "'i TableCacheItem \<Rightarrow> elem option \<Rightarrow> ('i, 's) lru_state \<Rightarrow> ('i, 's) lru_state option" where
  "evictLoop I cur st =
     (case cur of
        None \<Rightarrow> Some st
      | Some e \<Rightarrow>
          if word_sless (capacity (fst st)) (trackingCost (fst st))
          then (case evictStep I e st of (prev, st') \<Rightarrow> evictLoop I prev st')
          else Some st)"

definition evictIfNeeded :: "'i TableCacheItem \<Rightarrow> ('i, 's) lru_state \<Rightarrow> ('i, 's) lru_state option" where
  "evictIfNeeded I st = evictLoop I (Back (cache (fst st))) st"

definition put ::
  "'i TableCacheItem \<Rightarrow> int64 \<Rightarrow> int64 \<Rightarrow> bool \<Rightarrow> ref \<Rightarrow> CacheItemMemoryUsage \<Rightarrow> bool \<Rightarrow> bool \<Rightarrow>
   ('i, 's) lru_state \<Rightarrow> ('i, 's) lru_state option" where
  "put I tblID' id' isIndex' item itemMem needEvict needMove st =
     (case st of (c, h, s) \<Rightarrow>
        (let c' = put_body tblID' id' isIndex' item itemMem needMove c
         in if needEvict then evictIfNeeded I (c', h, s) else Some (c', h, s)))"

definition setCapacity :: "'i TableCacheItem \<Rightarrow> int64 \<Rightarrow> ('i, 's) lru_state \<Rightarrow> ('i, 's) lru_state option" where
  "setCapacity I capacity' st =
     (case st of (c, h, s) \<Rightarrow>
        evictIfNeeded I (c\<lparr>capacity := (if word_sless capacity' 1 then MaxInt64 else capacity')\<rparr>, h, s))"

text \<open>
  \<open>copy\<close> walks the list from the back and puts every entry into a new LRU with
  \<open>needEvict = false\<close> and \<open>needMove = false\<close>; with \<open>needEvict = false\<close> a \<open>put\<close> is
  its body (lemma \<open>put_no_evict\<close>).
\<close>

definition copy :: "('i, 's) innerItemLruCache \<Rightarrow> ('i, 't) innerItemLruCache" where
  "copy c =
     fold (\<lambda>cur newLRU.
             (let item = nodes c cur
              in put_body (tblID item) (itemID item) (isIndex item) (innerItem item) (innerMemUsage item)
                   False newLRU))
          (rev (cache c)) (newInnerLruCache (capacity c))"

subsection \<open>Tables and the outer map\<close>

text \<open>
  \<open>statistics.Table\<close>: the cache reads the two maps \<open>Columns\<close> and \<open>Indices\<close>, from
  the ID to the item. The cache never writes to a table, so a \<open>*Table\<close> is the value
  the entry holds. The cache keeps the pointer the caller gave it: a caller that
  changes the maps of a table afterwards changes the value in the entry (rule
  \<open>c_table\<close> of \<open>reachable\<close> below).
\<close>

record Table =
  PhysicalID :: int64
  Columns :: "(int64 \<times> ref) list"
  Indices :: "(int64 \<times> ref) list"

record TableMemoryUsage =
  TotalMemUsage :: int64
  ColumnsMemUsage :: "(int64 \<times> CacheItemMemoryUsage) list"
  IndicesMemUsage :: "(int64 \<times> CacheItemMemoryUsage) list"

text \<open>
  Modelled from the spec: \<open>Table.MemoryUsage()\<close> of package \<open>statistics\<close>, which is not
  among the files. The spec has \<open>columnsMemUsage[colID]\<close> and \<open>indicesMemUsage[idxID]\<close>
  "derived from the Table": the usage every column and every index reports now, under
  its ID, and \<open>totalMemUsage\<close> their total.
\<close>

definition Table_MemoryUsage :: "'i TableCacheItem \<Rightarrow> (ref \<Rightarrow> 'i) \<Rightarrow> Table \<Rightarrow> TableMemoryUsage" where
  "Table_MemoryUsage I h t =
     \<lparr>TotalMemUsage =
        sum_list (map (\<lambda>(i, r). TotalMemoryUsage (MemoryUsage I (h r))) (Columns t @ Indices t)),
      ColumnsMemUsage = map (\<lambda>(i, r). (i, MemoryUsage I (h r))) (Columns t),
      IndicesMemUsage = map (\<lambda>(i, r). (i, MemoryUsage I (h r))) (Indices t)\<rparr>"

record lruMapElement =
  tbl :: Table
  tblMemUsage :: TableMemoryUsage

type_synonym outer = "(int64 \<times> lruMapElement) list"

record 'i StatsInnerCache =
  elements :: outer
  lru :: "('i, outer) innerItemLruCache"

type_synonym 'i cache_state = "'i StatsInnerCache \<times> (ref \<Rightarrow> 'i)"

text \<open>
  A call of the outer cache either returns or panics: \<open>tblMemUsage.ColumnsMemUsage[colID]\<close>
  is the nil interface for an ID the map lacks, and \<open>put\<close> calls a method on it.
\<close>

datatype 'a result = Ok 'a | Panic

definition lruMapElement_copy :: "lruMapElement \<Rightarrow> lruMapElement" where
  "lruMapElement_copy l = \<lparr>tbl = tbl l, tblMemUsage = tblMemUsage l\<rparr>"

text \<open>\<open>StatsInnerCache.onEvict\<close>, the callback the outer cache installs in its LRU.\<close>

definition StatsInnerCache_onEvict :: "'i TableCacheItem \<Rightarrow> int64 \<Rightarrow> (ref \<Rightarrow> 'i) \<Rightarrow> outer \<Rightarrow> outer" where
  "StatsInnerCache_onEvict I tblID' h els =
     (case map_of els tblID' of
        None \<Rightarrow> els
      | Some element \<Rightarrow>
          AList.update tblID' (element\<lparr>tblMemUsage := Table_MemoryUsage I h (tbl element)\<rparr>) els)"

definition NewStatsLruCache :: "'i TableCacheItem \<Rightarrow> int64 \<Rightarrow> 'i StatsInnerCache" where
  "NewStatsLruCache I c =
     \<lparr>elements = [], lru = (newInnerLruCache c)\<lparr>onEvict := Some (StatsInnerCache_onEvict I)\<rparr>\<rparr>"

definition getByQuery :: "'i StatsInnerCache \<Rightarrow> int64 \<Rightarrow> 'i StatsInnerCache \<times> Table option" where
  "getByQuery S tblID' =
     (case map_of (elements S) tblID' of
        None \<Rightarrow> (S, None)
      | Some element \<Rightarrow>
          (let l1 = fold (\<lambda>idxID c. fst (get c tblID' idxID True)) (map fst (Indices (tbl element))) (lru S);
               l2 = fold (\<lambda>colID c. fst (get c tblID' colID False)) (map fst (Columns (tbl element))) l1
           in (S\<lparr>lru := l2\<rparr>, Some (tbl element))))"

definition Get :: "'i StatsInnerCache \<Rightarrow> int64 \<Rightarrow> bool \<Rightarrow> 'i StatsInnerCache \<times> Table option" where
  "Get S tblID' moveLRUFront =
     (if moveLRUFront then getByQuery S tblID'
      else (case map_of (elements S) tblID' of
              None \<Rightarrow> (S, None)
            | Some element \<Rightarrow> (S, Some (tbl element))))"

text \<open>
  The loops \<open>for idxID, idx := range tbl.Indices\<close> and \<open>for colID, col := range tbl.Columns\<close>
  of \<open>updateIndices\<close> and \<open>updateColumns\<close>. On an ID that \<open>mems\<close> lacks, \<open>put\<close> panics
  at \<open>itemMem.TrackingMemUsage()\<close>, after which its deferred function still runs.
\<close>

fun putItems ::
  "'i TableCacheItem \<Rightarrow> int64 \<Rightarrow> bool \<Rightarrow> bool \<Rightarrow> (int64 \<times> CacheItemMemoryUsage) list \<Rightarrow>
   (int64 \<times> ref) list \<Rightarrow> ('i, 's) lru_state \<Rightarrow> ('i, 's) lru_state result option" where
  "putItems I tblID' isIndex' needMove mems [] st = Some (Ok st)"
| "putItems I tblID' isIndex' needMove mems ((id', item) # rest) st =
     (case map_of mems id' of
        None \<Rightarrow> (case evictIfNeeded I st of None \<Rightarrow> None | Some _ \<Rightarrow> Some Panic)
      | Some itemMem \<Rightarrow>
          (case put I tblID' id' isIndex' item itemMem True needMove st of
             None \<Rightarrow> None
           | Some st' \<Rightarrow> putItems I tblID' isIndex' needMove mems rest st'))"

text \<open>
  The first half of \<open>updateIndices\<close> and \<open>updateColumns\<close>: the IDs the LRU tracks for
  the table that the new table lacks are collected, then deleted.
\<close>

definition delOld :: "int64 \<Rightarrow> bool \<Rightarrow> (int64 \<times> ref) list \<Rightarrow> ('i, 's) innerItemLruCache \<Rightarrow> ('i, 's) innerItemLruCache" where
  "delOld tblID' isIndex' new c =
     (let old = lookup2 (lru_elements c) tblID' isIndex';
          deleted = filter (\<lambda>oldID. map_of new oldID = None) (map fst old)
      in fold (\<lambda>id' c. del c tblID' id' isIndex') deleted c)"

definition updateIndices ::
  "'i TableCacheItem \<Rightarrow> int64 \<Rightarrow> Table \<Rightarrow> TableMemoryUsage \<Rightarrow> bool \<Rightarrow> 'i cache_state \<Rightarrow> 'i cache_state result option" where
  "updateIndices I tblID' tbl' tblMemUsage' needMove st =
     (case st of (S, h) \<Rightarrow>
        (let exist = (map_of (elements S) tblID' \<noteq> None);
             c = (if exist then delOld tblID' True (Indices tbl') (lru S) else lru S)
         in case putItems I tblID' True needMove (IndicesMemUsage tblMemUsage') (Indices tbl') (c, h, elements S) of
              None \<Rightarrow> None
            | Some Panic \<Rightarrow> Some Panic
            | Some (Ok (c', h', s')) \<Rightarrow> Some (Ok (\<lparr>elements = s', lru = c'\<rparr>, h'))))"

definition updateColumns ::
  "'i TableCacheItem \<Rightarrow> int64 \<Rightarrow> Table \<Rightarrow> TableMemoryUsage \<Rightarrow> bool \<Rightarrow> 'i cache_state \<Rightarrow> 'i cache_state result option" where
  "updateColumns I tblID' tbl' tblMemUsage' needMove st =
     (case st of (S, h) \<Rightarrow>
        (let exist = (map_of (elements S) tblID' \<noteq> None);
             c = (if exist then delOld tblID' False (Columns tbl') (lru S) else lru S)
         in case putItems I tblID' False needMove (ColumnsMemUsage tblMemUsage') (Columns tbl') (c, h, elements S) of
              None \<Rightarrow> None
            | Some Panic \<Rightarrow> Some Panic
            | Some (Ok (c', h', s')) \<Rightarrow> Some (Ok (\<lparr>elements = s', lru = c'\<rparr>, h'))))"

text \<open>
  \<open>StatsInnerCache.put\<close>. Both branches end by writing the table and its usage,
  computed anew, to the entry of \<open>tblID\<close>: the entry found at the start, which no call
  in between removes, or a new one.
\<close>

definition StatsInnerCache_put ::
  "'i TableCacheItem \<Rightarrow> int64 \<Rightarrow> Table \<Rightarrow> TableMemoryUsage \<Rightarrow> bool \<Rightarrow> 'i cache_state \<Rightarrow> 'i cache_state result option" where
  "StatsInnerCache_put I tblID' tbl' tblMemUsage' needMove st =
     (case updateColumns I tblID' tbl' tblMemUsage' needMove st of
        None \<Rightarrow> None
      | Some Panic \<Rightarrow> Some Panic
      | Some (Ok st1) \<Rightarrow>
          (case updateIndices I tblID' tbl' tblMemUsage' needMove st1 of
             None \<Rightarrow> None
           | Some Panic \<Rightarrow> Some Panic
           | Some (Ok (S2, h2)) \<Rightarrow>
               Some (Ok (S2\<lparr>elements :=
                              AList.update tblID' \<lparr>tbl = tbl', tblMemUsage = Table_MemoryUsage I h2 tbl'\<rparr>
                                (elements S2)\<rparr>, h2))))"

definition Put :: "'i TableCacheItem \<Rightarrow> int64 \<Rightarrow> Table \<Rightarrow> bool \<Rightarrow> 'i cache_state \<Rightarrow> 'i cache_state result option" where
  "Put I tblID' tbl' moveLRUFront st =
     StatsInnerCache_put I tblID' tbl' (Table_MemoryUsage I (snd st) tbl') moveLRUFront st"

definition Del :: "'i StatsInnerCache \<Rightarrow> int64 \<Rightarrow> 'i StatsInnerCache" where
  "Del S tblID' =
     (case map_of (elements S) tblID' of
        None \<Rightarrow> S
      | Some element \<Rightarrow>
          (let l1 = fold (\<lambda>idxID c. del c tblID' idxID True) (map fst (Indices (tbl element))) (lru S);
               l2 = fold (\<lambda>colID c. del c tblID' colID False) (map fst (Columns (tbl element))) l1
           in \<lparr>elements = AList.delete tblID' (elements S), lru = l2\<rparr>))"

definition Cost :: "'i StatsInnerCache \<Rightarrow> int64" where
  "Cost S = trackingCost (lru S)"

text \<open>
  \<open>freshTableCost\<close> and the loop of \<open>TotalCost\<close>. \<open>ele\<close> is the pointer the map holds
  under \<open>tblID\<close>, so the model reads the entry of \<open>tblID\<close> as it is now; the keys of the
  map do not change during the loop.
\<close>

definition freshTableCost :: "'i TableCacheItem \<Rightarrow> int64 \<Rightarrow> 'i cache_state \<Rightarrow> 'i cache_state result option" where
  "freshTableCost I tblID' st =
     (case st of (S, h) \<Rightarrow>
        (case map_of (elements S) tblID' of
           None \<Rightarrow> Some (Ok st)
         | Some element \<Rightarrow>
             (let m = Table_MemoryUsage I h (tbl element);
                  S1 = S\<lparr>elements := AList.update tblID' (element\<lparr>tblMemUsage := m\<rparr>) (elements S)\<rparr>
              in StatsInnerCache_put I tblID' (tbl element) m False (S1, h))))"

fun TotalCost_loop ::
  "'i TableCacheItem \<Rightarrow> int64 list \<Rightarrow> int64 \<Rightarrow> 'i cache_state \<Rightarrow> (int64 \<times> 'i cache_state) result option" where
  "TotalCost_loop I [] totalCost st = Some (Ok (totalCost, st))"
| "TotalCost_loop I (tblID' # rest) totalCost st =
     (case freshTableCost I tblID' st of
        None \<Rightarrow> None
      | Some Panic \<Rightarrow> Some Panic
      | Some (Ok (S', h')) \<Rightarrow>
          TotalCost_loop I rest
            (totalCost + (case map_of (elements S') tblID' of
                            None \<Rightarrow> 0
                          | Some ele \<Rightarrow> TotalMemUsage (tblMemUsage ele)))
            (S', h'))"

definition TotalCost :: "'i TableCacheItem \<Rightarrow> 'i cache_state \<Rightarrow> (int64 \<times> 'i cache_state) result option" where
  "TotalCost I st = TotalCost_loop I (map fst (elements (fst st))) 0 st"

definition Keys :: "'i StatsInnerCache \<Rightarrow> int64 list" where
  "Keys S = map fst (elements S)"

definition Values :: "'i StatsInnerCache \<Rightarrow> Table list" where
  "Values S = map (\<lambda>(k, v). tbl v) (elements S)"

definition Len :: "'i StatsInnerCache \<Rightarrow> nat" where
  "Len S = length (elements S)"

definition Copy :: "'i TableCacheItem \<Rightarrow> 'i StatsInnerCache \<Rightarrow> 'i StatsInnerCache" where
  "Copy I S =
     (let newCache = NewStatsLruCache I (capacity (lru S));
          newCache1 = newCache\<lparr>lru := copy (lru S)\<rparr>;
          newCache2 = newCache1\<lparr>elements :=
                        fold (\<lambda>(tblID', element) m. AList.update tblID' (lruMapElement_copy element) m)
                          (elements S) (elements newCache1)\<rparr>
      in newCache2\<lparr>lru := (lru newCache2)\<lparr>onEvict := Some (StatsInnerCache_onEvict I)\<rparr>\<rparr>)"

definition SetCapacity :: "'i TableCacheItem \<Rightarrow> int64 \<Rightarrow> 'i cache_state \<Rightarrow> 'i cache_state option" where
  "SetCapacity I c st =
     (case st of (S, h) \<Rightarrow>
        (case setCapacity I c (lru S, h, elements S) of
           None \<Rightarrow> None
         | Some (c', h', s') \<Rightarrow> Some (\<lparr>elements = s', lru = c'\<rparr>, h')))"

definition Front :: "'i StatsInnerCache \<Rightarrow> int64" where
  "Front S =
     (case Front_elem (cache (lru S)) of
        None \<Rightarrow> 0
      | Some ele \<Rightarrow> tblID (nodes (lru S) ele))"

subsection \<open>Invariants of the inner LRU\<close>

text \<open>
  \<open>lru_inv\<close>: the list has no element twice, every element the index holds is in the
  list and carries the key it is filed under, and every element of the list is filed
  under its key.
\<close>

definition keyOf :: "lruCacheItem \<Rightarrow> int64 \<times> bool \<times> int64" where
  "keyOf x = (tblID x, isIndex x, itemID x)"

definition lookupK :: "index \<Rightarrow> int64 \<times> bool \<times> int64 \<Rightarrow> elem option" where
  "lookupK m k = (case k of (t, b, i) \<Rightarrow> lookup3 m t b i)"

definition lru_inv :: "('i, 's) innerItemLruCache \<Rightarrow> bool" where
  "lru_inv c \<longleftrightarrow>
     distinct (cache c) \<and>
     (\<forall>k e. lookupK (lru_elements c) k = Some e \<longrightarrow> e \<in> set (cache c) \<and> keyOf (nodes c e) = k) \<and>
     (\<forall>e \<in> set (cache c). lookupK (lru_elements c) (keyOf (nodes c e)) = Some e)"

text \<open>The tracking usage an element stores, and the sum over the list.\<close>

definition storedMem :: "('i, 's) innerItemLruCache \<Rightarrow> elem \<Rightarrow> int64" where
  "storedMem c = (\<lambda>e. TrackingMemUsage (innerMemUsage (nodes c e)))"

definition storedSum :: "('i, 's) innerItemLruCache \<Rightarrow> int64" where
  "storedSum c = sum_list (map (storedMem c) (cache c))"

text \<open>The hypothesis on the items: an item that is all evicted reports tracking usage 0.\<close>

definition evicted_is_free :: "'i TableCacheItem \<Rightarrow> bool" where
  "evicted_is_free I \<longleftrightarrow> (\<forall>x. IsAllEvicted I x \<longrightarrow> TrackingMemUsage (MemoryUsage I x) = 0)"

text \<open>\<open>over c\<close> is the test \<open>c.trackingCost > c.capacity\<close> of the loop.\<close>

definition over :: "('i, 's) innerItemLruCache \<Rightarrow> bool" where
  "over c \<longleftrightarrow> word_sless (capacity c) (trackingCost c)"

text \<open>
  During the loop \<open>curr\<close>, when it is not nil, is the back of the list; it is nil only
  when the list has at most one element.
\<close>

definition at_back :: "elem option \<Rightarrow> ('i, 's) innerItemLruCache \<Rightarrow> bool" where
  "at_back cur c \<longleftrightarrow>
     (case cur of None \<Rightarrow> length (cache c) \<le> 1 | Some e \<Rightarrow> cache c \<noteq> [] \<and> last (cache c) = e)"

text \<open>The parts of the state after one turn of the loop.\<close>

definition stepItem :: "('i, 's) lru_state \<Rightarrow> elem \<Rightarrow> lruCacheItem" where
  "stepItem st e = nodes (fst st) e"

definition stepHeap :: "'i TableCacheItem \<Rightarrow> ('i, 's) lru_state \<Rightarrow> elem \<Rightarrow> (ref \<Rightarrow> 'i)" where
  "stepHeap I st e =
     (let r = innerItem (stepItem st e); h = fst (snd st) in h(r := DropEvicted I (h r)))"

definition stepMem :: "'i TableCacheItem \<Rightarrow> ('i, 's) lru_state \<Rightarrow> elem \<Rightarrow> CacheItemMemoryUsage" where
  "stepMem I st e = MemoryUsage I (stepHeap I st e (innerItem (stepItem st e)))"

definition stepRemoves :: "'i TableCacheItem \<Rightarrow> ('i, 's) lru_state \<Rightarrow> elem \<Rightarrow> bool" where
  "stepRemoves I st e \<longleftrightarrow>
     TrackingMemUsage (stepMem I st e) = 0 \<or> IsAllEvicted I (stepHeap I st e (innerItem (stepItem st e)))"

text \<open>
  \<open>lru_ok\<close>: the LRU is well formed and, when the items meet \<open>evicted_is_free\<close>,
  \<open>trackingCost\<close> is the sum of the usages the elements store.
\<close>

definition lru_ok :: "'i TableCacheItem \<Rightarrow> ('i, 's) innerItemLruCache \<Rightarrow> bool" where
  "lru_ok I c \<longleftrightarrow> lru_inv c \<and> (evicted_is_free I \<longrightarrow> trackingCost c = storedSum c)"

text \<open>
  The states an inner LRU can reach: from a new one by its operations. The last rule
  is what happens outside of the LRU: its owner installs a callback, the items change
  (tables and copies of the cache share them) and so does the owner's state.
\<close>

inductive lru_reachable :: "'i TableCacheItem \<Rightarrow> ('i, 's) lru_state \<Rightarrow> bool" for I :: "'i TableCacheItem" where
  r_new: "lru_reachable I (newInnerLruCache c, h, s)"
| r_get: "lru_reachable I (c, h, s) \<Longrightarrow> lru_reachable I (fst (get c t i b), h, s)"
| r_put: "lru_reachable I st \<Longrightarrow> put I t i b item itemMem needEvict needMove st = Some st' \<Longrightarrow> lru_reachable I st'"
| r_del: "lru_reachable I (c, h, s) \<Longrightarrow> lru_reachable I (del c t i b, h, s)"
| r_setCapacity: "lru_reachable I st \<Longrightarrow> setCapacity I n st = Some st' \<Longrightarrow> lru_reachable I st'"
| r_evict: "lru_reachable I st \<Longrightarrow> evictIfNeeded I st = Some st' \<Longrightarrow> lru_reachable I st'"
| r_copy: "lru_reachable I (c, h, s) \<Longrightarrow> lru_reachable I (copy c, h, s)"
| r_outside: "lru_reachable I (c, h, s) \<Longrightarrow> lru_reachable I (c\<lparr>onEvict := f\<rparr>, h', s')"



subsection \<open>Invariants of the outer cache\<close>

text \<open>The tables of the outer map, and the keys the tables give to the inner LRU.\<close>

definition tables :: "outer \<Rightarrow> (int64 \<times> Table) list" where
  "tables s = map (\<lambda>(k, el). (k, tbl el)) s"

definition items_of :: "Table \<Rightarrow> bool \<Rightarrow> (int64 \<times> ref) list" where
  "items_of t b = (if b then Indices t else Columns t)"

definition keys_of :: "(int64 \<times> Table) list \<Rightarrow> (int64 \<times> bool \<times> int64) set" where
  "keys_of ts = {(t, b, i). \<exists>tb. map_of ts t = Some tb \<and> i \<in> fst ` set (items_of tb b)}"

text \<open>\<open>owned A c\<close>: every element of the list carries a key of \<open>A\<close>.\<close>

definition owned :: "(int64 \<times> bool \<times> int64) set \<Rightarrow> ('i, 's) innerItemLruCache \<Rightarrow> bool" where
  "owned A c \<longleftrightarrow> (\<forall>e \<in> set (cache c). keyOf (nodes c e) \<in> A)"


text \<open>
  \<open>cache_wf\<close>: the inner LRU is well formed (\<open>lru_ok\<close>), its callback is the one of the
  outer cache, its capacity is at least 1 and the outer map has every key once.
  \<open>cache_inv\<close>: moreover every element of the list belongs to a column or an index of
  a table of the outer map.
\<close>

definition cache_wf :: "'i TableCacheItem \<Rightarrow> 'i StatsInnerCache \<Rightarrow> bool" where
  "cache_wf I S \<longleftrightarrow>
     lru_ok I (lru S) \<and>
     onEvict (lru S) = Some (StatsInnerCache_onEvict I) \<and>
     \<not> word_sless (capacity (lru S)) 1 \<and>
     distinct (map fst (elements S))"

definition cache_inv :: "'i TableCacheItem \<Rightarrow> 'i StatsInnerCache \<Rightarrow> bool" where
  "cache_inv I S \<longleftrightarrow>
     lru_ok I (lru S) \<and>
     onEvict (lru S) = Some (StatsInnerCache_onEvict I) \<and>
     \<not> word_sless (capacity (lru S)) 1 \<and>
     distinct (map fst (elements S)) \<and>
     owned (keys_of (tables (elements S))) (lru S)"

text \<open>
  The states a cache can reach: from a new one by the public operations. The items the
  tables point to are shared with the callers and with the copies of the cache, so
  between two operations the store may change (rule \<open>c_store\<close>). The tables are the
  callers' too: between two operations a caller may change a table an entry points to
  (rule \<open>c_table\<close>).
\<close>

inductive reachable :: "'i TableCacheItem \<Rightarrow> 'i cache_state \<Rightarrow> bool" for I :: "'i TableCacheItem" where
  c_new: "reachable I (NewStatsLruCache I c, h)"
| c_Put: "reachable I st \<Longrightarrow> Put I tblID' tbl' moveLRUFront st = Some (Ok st') \<Longrightarrow> reachable I st'"
| c_Get: "reachable I (S, h) \<Longrightarrow> reachable I (fst (Get S tblID' moveLRUFront), h)"
| c_Del: "reachable I (S, h) \<Longrightarrow> reachable I (Del S tblID', h)"
| c_SetCapacity: "reachable I st \<Longrightarrow> SetCapacity I c st = Some st' \<Longrightarrow> reachable I st'"
| c_TotalCost: "reachable I st \<Longrightarrow> TotalCost I st = Some (Ok (n, st')) \<Longrightarrow> reachable I st'"
| c_Copy: "reachable I (S, h) \<Longrightarrow> reachable I (Copy I S, h)"
| c_store: "reachable I (S, h) \<Longrightarrow> reachable I (S, h')"
| c_table: "reachable I (S, h) \<Longrightarrow> map_of (elements S) tblID' = Some element \<Longrightarrow>
            reachable I (S\<lparr>elements := AList.update tblID' (element\<lparr>tbl := tbl'\<rparr>) (elements S)\<rparr>, h)"

text \<open>
  The states a cache reaches when the callers keep the IDs of the tables it holds: the
  rules of \<open>reachable\<close>, but a caller that changes a table an entry points to takes no
  ID out of its \<open>Columns\<close> or its \<open>Indices\<close> (rule \<open>k_table\<close>).
\<close>

inductive reachable_keeping :: "'i TableCacheItem \<Rightarrow> 'i cache_state \<Rightarrow> bool" for I :: "'i TableCacheItem" where
  k_new: "reachable_keeping I (NewStatsLruCache I c, h)"
| k_Put: "reachable_keeping I st \<Longrightarrow> Put I tblID' tbl' moveLRUFront st = Some (Ok st') \<Longrightarrow> reachable_keeping I st'"
| k_Get: "reachable_keeping I (S, h) \<Longrightarrow> reachable_keeping I (fst (Get S tblID' moveLRUFront), h)"
| k_Del: "reachable_keeping I (S, h) \<Longrightarrow> reachable_keeping I (Del S tblID', h)"
| k_SetCapacity: "reachable_keeping I st \<Longrightarrow> SetCapacity I c st = Some st' \<Longrightarrow> reachable_keeping I st'"
| k_TotalCost: "reachable_keeping I st \<Longrightarrow> TotalCost I st = Some (Ok (n, st')) \<Longrightarrow> reachable_keeping I st'"
| k_Copy: "reachable_keeping I (S, h) \<Longrightarrow> reachable_keeping I (Copy I S, h)"
| k_store: "reachable_keeping I (S, h) \<Longrightarrow> reachable_keeping I (S, h')"
| k_table: "reachable_keeping I (S, h) \<Longrightarrow> map_of (elements S) tblID' = Some element \<Longrightarrow>
            fst ` set (Columns (tbl element)) \<subseteq> fst ` set (Columns tbl') \<Longrightarrow>
            fst ` set (Indices (tbl element)) \<subseteq> fst ` set (Indices tbl') \<Longrightarrow>
            reachable_keeping I (S\<lparr>elements := AList.update tblID' (element\<lparr>tbl := tbl'\<rparr>) (elements S)\<rparr>, h)"

subsection \<open>An implementation of the items, for concrete runs\<close>

text \<open>
  An item is the list of the sizes of the parts of its statistics that are still
  loaded; \<open>DropEvicted\<close> drops the first part, the item is all evicted when no part is
  left, and its usage is the sum of the sizes.
\<close>

definition listItem :: "int64 list TableCacheItem" where
  "listItem =
     \<lparr>MemoryUsage = (\<lambda>xs. \<lparr>TrackingMemUsage = sum_list xs, TotalMemoryUsage = sum_list xs\<rparr>),
      DropEvicted = tl,
      IsAllEvicted = (\<lambda>xs. xs = [])\<rparr>"

definition mem :: "int64 \<Rightarrow> CacheItemMemoryUsage" where
  "mem n = \<lparr>TrackingMemUsage = n, TotalMemoryUsage = n\<rparr>"


text \<open>A store: items 1, 2 and 3 hold one part of size 20, item 4 parts of sizes 5 and 15.\<close>

definition store0 :: "ref \<Rightarrow> int64 list" where
  "store0 = (\<lambda>_. [])(1 := [20], 2 := [20], 3 := [20], 4 := [5, 15])"

definition table :: "(int64 \<times> ref) list \<Rightarrow> (int64 \<times> ref) list \<Rightarrow> Table" where
  "table cols idxs = \<lparr>PhysicalID = 1, Columns = cols, Indices = idxs\<rparr>"

text \<open>
  Two states of an inner LRU over \<open>store0\<close>. \<open>two_over\<close>: capacity 30, item 4 put for
  table 2, then item 1 for table 1, each with usage 20 and without eviction.
  \<open>parked\<close>: capacity 10 and one element, item 4 after its first part was dropped.
\<close>

definition two_over :: "(int64 list, unit) lru_state" where
  "two_over =
     (put_body 1 1 False 1 (mem 20) False (put_body 2 1 False 4 (mem 20) False (newInnerLruCache 30)),
      store0, ())"

definition parked :: "(int64 list, unit) lru_state" where
  "parked =
     (\<lparr>lru_elements = [(1, [(False, [(1, 1)])])],
       nodes = (\<lambda>_. zeroItem)
         (1 := \<lparr>innerItem = 4, innerMemUsage = mem 15, tblID = 1, itemID = 1, isIndex = False\<rparr>),
       cache = [1], onEvict = None, capacity = 10, trackingCost = 15\<rparr>,
      store0(4 := [15]), ())"


text \<open>
  \<open>held\<close>: the cache of capacity 100 after \<open>Put\<close> of table 1 with the one column 1 over
  \<open>store0\<close>; \<open>held_entry\<close> is its entry of the outer map. \<open>orphaned\<close>: the caller then
  takes column 1 out of the table, and \<open>Del(1)\<close> is called.
\<close>

definition held_entry :: lruMapElement where
  "held_entry =
     \<lparr>tbl = table [(1, 1)] [],
      tblMemUsage = \<lparr>TotalMemUsage = 20, ColumnsMemUsage = [(1, mem 20)], IndicesMemUsage = []\<rparr>\<rparr>"

definition held :: "int64 list StatsInnerCache" where
  "held =
     \<lparr>elements = [(1, held_entry)],
      lru = \<lparr>lru_elements = [(1, [(False, [(1, 1)])])],
             nodes = (\<lambda>_. zeroItem)
               (1 := \<lparr>innerItem = 1, innerMemUsage = mem 20, tblID = 1, itemID = 1, isIndex = False\<rparr>),
             cache = [1], onEvict = Some (StatsInnerCache_onEvict listItem), capacity = 100,
             trackingCost = 20\<rparr>\<rparr>"

definition orphaned :: "int64 list StatsInnerCache" where
  "orphaned = Del (held\<lparr>elements := AList.update 1 (held_entry\<lparr>tbl := table [] []\<rparr>) (elements held)\<rparr>) 1"


section \<open>Properties\<close>

lemma put_no_evict:
  "put I t i b item m False needMove (c, h, s) = Some (put_body t i b item m needMove c, h, s)"
  by (simp add: put_def)

lemma lookup3_insert3:
  "lookup3 (insert3 m t b i e) t' b' i' = (if t' = t \<and> b' = b \<and> i' = i then Some e else lookup3 m t' b' i')"
  by (auto simp: lookup3_def insert3_def update_conv' Let_def split: option.splits)

lemma lookup3_delete3:
  "lookup3 (delete3 m t b i) t' b' i' = (if t' = t \<and> b' = b \<and> i' = i then None else lookup3 m t' b' i')"
  by (auto simp: lookup3_def delete3_def update_conv' delete_conv' split: option.splits)

lemma lookup3_lookup2: "lookup3 m t b i = map_of (lookup2 m t b) i"
  by (simp add: lookup3_def lookup2_def split: option.splits)

lemma fold_max_ge: "a \<le> fold max xs (a::nat)"
  by (induction xs arbitrary: a) (auto intro: order_trans[OF max.cobounded2])

lemma fold_max_mem: "x \<in> set xs \<Longrightarrow> x \<le> fold max xs (a::nat)"
proof (induction xs arbitrary: a)
  case Nil then show ?case by simp
next
  case (Cons y ys)
  show ?case
  proof (cases "x = y")
    case True
    have "y \<le> max y a" by simp
    also have "\<dots> \<le> fold max ys (max y a)" by (rule fold_max_ge)
    finally show ?thesis using True by simp
  next
    case False with Cons show ?thesis by simp
  qed
qed

lemma PushFront_fresh: "PushFront xs \<notin> set xs"
  using fold_max_mem[of "PushFront xs" xs 0] by (auto simp: PushFront_def)

lemma Prev_last: "distinct xs \<Longrightarrow> xs \<noteq> [] \<Longrightarrow> Prev xs (last xs) = Back (butlast xs)"
  by (induction xs "last xs" rule: Prev.induct) (auto simp: Back_def split: if_splits)

lemma remove1_last: "distinct xs \<Longrightarrow> xs \<noteq> [] \<Longrightarrow> remove1 (last xs) xs = butlast xs"
  by (induction xs) (auto split: if_splits)

lemma evictLoop_rule:
  assumes run: "evictLoop I cur st = Some st'"
      and init: "R cur st"
      and step: "\<And>e c h s prev st1. R (Some e) (c, h, s) \<Longrightarrow> over c \<Longrightarrow>
                   evictStep I e (c, h, s) = (prev, st1) \<Longrightarrow> R prev st1"
  shows "\<exists>cur'. R cur' st' \<and> (cur' = None \<or> \<not> over (fst st'))"
proof -
  have "I = I \<longrightarrow> R cur st \<longrightarrow> (\<exists>cur'. R cur' st' \<and> (cur' = None \<or> \<not> over (fst st')))"
  proof (rule evictLoop.raw_induct[where P = "\<lambda>I' cur st y. I' = I \<longrightarrow> R cur st \<longrightarrow> (\<exists>cur'. R cur' y \<and> (cur' = None \<or> \<not> over (fst y)))", OF _ run], goal_cases)
    case (1 f I' cur st y)
    show ?case
    proof (intro impI)
      assume I': "I' = I" and R: "R cur st"
      show "\<exists>cur'. R cur' y \<and> (cur' = None \<or> \<not> over (fst y))"
      proof (cases cur)
        case None
        with 1(2) R show ?thesis by auto
      next
        case (Some e)
        show ?thesis
        proof (cases "over (fst st)")
          case False
          with Some 1(2) R show ?thesis by (auto simp: over_def)
        next
          case True
          obtain prev st1 where es: "evictStep I e st = (prev, st1)" by (cases "evictStep I e st")
          obtain c h s where st: "st = (c, h, s)" by (cases st)
          from True Some 1(2) es I' have "f I prev st1 = Some y" by (simp add: over_def)
          moreover have "R prev st1" using step[of e c h s prev st1] R Some True es st by simp
          ultimately show ?thesis using 1(1)[of I prev st1 y] by simp
        qed
      qed
    qed
  qed
  then show ?thesis using init by simp
qed

lemma lookupK_insert3:
  "lookupK (insert3 m t b i e) k = (if k = (t, b, i) then Some e else lookupK m k)"
  by (cases k) (simp add: lookupK_def lookup3_insert3)

lemma lookupK_delete3:
  "lookupK (delete3 m t b i) k = (if k = (t, b, i) then None else lookupK m k)"
  by (cases k) (simp add: lookupK_def lookup3_delete3)

lemma lookupK_triple: "lookupK m (t, b, i) = lookup3 m t b i"
  by (simp add: lookupK_def)

lemma delete3_keyOf: "delete3 m (tblID x) (isIndex x) (itemID x) = m' \<Longrightarrow> lookupK m' k = (if k = keyOf x then None else lookupK m k)"
  by (auto simp: lookupK_delete3 keyOf_def)

lemma lru_inv_distinct: "lru_inv c \<Longrightarrow> distinct (cache c)"
  by (simp add: lru_inv_def)

lemma lru_inv_lookup:
  "lru_inv c \<Longrightarrow> lookupK (lru_elements c) k = Some e \<Longrightarrow> e \<in> set (cache c) \<and> keyOf (nodes c e) = k"
  unfolding lru_inv_def by blast

lemma lru_inv_mem:
  "lru_inv c \<Longrightarrow> e \<in> set (cache c) \<Longrightarrow> lookupK (lru_elements c) (keyOf (nodes c e)) = Some e"
  unfolding lru_inv_def by blast

lemma lru_invI:
  "distinct (cache c) \<Longrightarrow>
   (\<And>k e. lookupK (lru_elements c) k = Some e \<Longrightarrow> e \<in> set (cache c) \<and> keyOf (nodes c e) = k) \<Longrightarrow>
   (\<And>e. e \<in> set (cache c) \<Longrightarrow> lookupK (lru_elements c) (keyOf (nodes c e)) = Some e) \<Longrightarrow>
   lru_inv c"
  unfolding lru_inv_def by blast

lemma lru_inv_newInnerLruCache: "lru_inv (newInnerLruCache c)"
  by (simp add: lru_inv_def newInnerLruCache_def lookup3_def lookupK_def)

lemma lru_inv_cache_cong:
  "lru_inv c \<Longrightarrow> lru_elements c' = lru_elements c \<Longrightarrow> nodes c' = nodes c \<Longrightarrow>
   set (cache c') = set (cache c) \<Longrightarrow> distinct (cache c') \<Longrightarrow> lru_inv c'"
  unfolding lru_inv_def by simp

lemma lru_inv_remove:
  assumes inv: "lru_inv c" and mem: "e \<in> set (cache c)"
      and c1: "cache c' = remove1 e (cache c)"
      and c2: "\<And>k. lookupK (lru_elements c') k = (if k = keyOf (nodes c e) then None else lookupK (lru_elements c) k)"
      and c3: "nodes c' = nodes c"
  shows "lru_inv c'"
proof (rule lru_invI)
  show "distinct (cache c')" using lru_inv_distinct[OF inv] c1 by simp
next
  fix k e'
  assume "lookupK (lru_elements c') k = Some e'"
  then have ne: "k \<noteq> keyOf (nodes c e)" and l: "lookupK (lru_elements c) k = Some e'"
    by (auto simp: c2 split: if_splits)
  from lru_inv_lookup[OF inv l] ne have "e' \<noteq> e" by auto
  with lru_inv_lookup[OF inv l] show "e' \<in> set (cache c') \<and> keyOf (nodes c' e') = k"
    by (simp add: c1 c3)
next
  fix e' assume "e' \<in> set (cache c')"
  then have m: "e' \<in> set (cache c)" and ne: "e' \<noteq> e"
    using lru_inv_distinct[OF inv] by (auto simp: c1)
  have "keyOf (nodes c e') \<noteq> keyOf (nodes c e)"
    using lru_inv_mem[OF inv m] lru_inv_mem[OF inv mem] ne by auto
  then show "lookupK (lru_elements c') (keyOf (nodes c' e')) = Some e'"
    using lru_inv_mem[OF inv m] by (simp add: c2 c3)
qed

lemma lru_inv_update_node:
  assumes inv: "lru_inv c"
      and c1: "set (cache c') = set (cache c)" and d: "distinct (cache c')"
      and c2: "lru_elements c' = lru_elements c"
      and c3: "nodes c' = (nodes c)(e := x)"
      and k: "keyOf x = keyOf (nodes c e)"
  shows "lru_inv c'"
proof (rule lru_invI)
  show "distinct (cache c')" by (rule d)
next
  fix k' e'
  assume "lookupK (lru_elements c') k' = Some e'"
  then have l: "lookupK (lru_elements c) k' = Some e'" by (simp add: c2)
  from lru_inv_lookup[OF inv l] show "e' \<in> set (cache c') \<and> keyOf (nodes c' e') = k'"
    by (auto simp: c1 c3 k)
next
  fix e' assume "e' \<in> set (cache c')"
  then have m: "e' \<in> set (cache c)" by (simp add: c1)
  from lru_inv_mem[OF inv m] show "lookupK (lru_elements c') (keyOf (nodes c' e')) = Some e'"
    by (auto simp: c2 c3 k)
qed

lemma lru_inv_insert:
  assumes inv: "lru_inv c" and fresh: "e \<notin> set (cache c)"
      and absent: "lookupK (lru_elements c) k = None"
      and c1: "cache c' = e # cache c"
      and c2: "\<And>k'. lookupK (lru_elements c') k' = (if k' = k then Some e else lookupK (lru_elements c) k')"
      and c3: "nodes c' = (nodes c)(e := x)"
      and k: "keyOf x = k"
  shows "lru_inv c'"
proof (rule lru_invI)
  show "distinct (cache c')" using lru_inv_distinct[OF inv] fresh c1 by simp
next
  fix k' e'
  assume l': "lookupK (lru_elements c') k' = Some e'"
  show "e' \<in> set (cache c') \<and> keyOf (nodes c' e') = k'"
  proof (cases "k' = k")
    case True
    with l' have "e' = e" by (simp add: c2)
    with True show ?thesis by (simp add: c1 c3 k)
  next
    case False
    with l' have l: "lookupK (lru_elements c) k' = Some e'" by (simp add: c2)
    from lru_inv_lookup[OF inv l] fresh have "e' \<noteq> e" by auto
    with lru_inv_lookup[OF inv l] show ?thesis by (simp add: c1 c3)
  qed
next
  fix e' assume m': "e' \<in> set (cache c')"
  show "lookupK (lru_elements c') (keyOf (nodes c' e')) = Some e'"
  proof (cases "e' = e")
    case True
    then show ?thesis by (simp add: c2 c3 k)
  next
    case False
    with m' have m: "e' \<in> set (cache c)" by (simp add: c1)
    from lru_inv_mem[OF inv m] absent have "keyOf (nodes c e') \<noteq> k" by auto
    with lru_inv_mem[OF inv m] False show ?thesis by (simp add: c2 c3)
  qed
qed

lemma MoveToFront_set: "distinct xs \<Longrightarrow> set (MoveToFront e xs) = set xs"
  by (auto simp: MoveToFront_def)

lemma MoveToFront_distinct: "distinct xs \<Longrightarrow> distinct (MoveToFront e xs)"
  by (auto simp: MoveToFront_def)

lemma lru_inv_get: "lru_inv c \<Longrightarrow> lru_inv (fst (get c t i b))"
proof (cases "lookup3 (lru_elements c) t b i")
  case None
  assume "lru_inv c" with None show ?thesis by (simp add: get_def)
next
  case (Some e)
  assume inv: "lru_inv c"
  show ?thesis
    by (rule lru_inv_cache_cong[OF inv])
       (use Some lru_inv_distinct[OF inv] in \<open>simp_all add: get_def MoveToFront_set MoveToFront_distinct\<close>)
qed

lemma lru_inv_del: "lru_inv c \<Longrightarrow> lru_inv (del c t i b)"
proof (cases "lookup3 (lru_elements c) t b i")
  case None
  assume "lru_inv c" with None show ?thesis by (simp add: del_def)
next
  case (Some e)
  assume inv: "lru_inv c"
  from Some have l: "lookupK (lru_elements c) (t, b, i) = Some e" by (simp add: lookupK_def)
  from lru_inv_lookup[OF inv l] have mem: "e \<in> set (cache c)" and k: "keyOf (nodes c e) = (t, b, i)" by auto
  show ?thesis
  proof (rule lru_inv_remove[OF inv mem])
    show "cache (del c t i b) = remove1 e (cache c)"
      by (simp add: del_def Some calculateCost_def Remove_def Let_def)
    show "nodes (del c t i b) = nodes c"
      by (simp add: del_def Some calculateCost_def Let_def)
    show "lookupK (lru_elements (del c t i b)) k' = (if k' = keyOf (nodes c e) then None else lookupK (lru_elements c) k')" for k'
      by (simp add: del_def Some calculateCost_def Let_def lookupK_delete3 k)
  qed
qed

lemma lru_inv_put_body: "lru_inv c \<Longrightarrow> lru_inv (put_body t i b item m mv c)"
proof (cases "word_sless (TrackingMemUsage m) 1")
  case True
  assume "lru_inv c" with True show ?thesis by (simp add: put_body_def)
next
  case False
  assume inv: "lru_inv c"
  show ?thesis
  proof (cases "lookup3 (lru_elements c) t b i")
    case None
    let ?x = "\<lparr>innerItem = item, innerMemUsage = m, tblID = t, itemID = i, isIndex = b\<rparr>"
    from None have a: "lookupK (lru_elements c) (t, b, i) = None" by (simp add: lookupK_def)
    show ?thesis
    proof (rule lru_inv_insert[OF inv PushFront_fresh a, where x = ?x])
      show "cache (put_body t i b item m mv c) = PushFront (cache c) # cache c"
        by (simp add: put_body_def False None calculateCost_def Let_def)
      show "nodes (put_body t i b item m mv c) = (nodes c)(PushFront (cache c) := ?x)"
        by (simp add: put_body_def False None calculateCost_def Let_def)
      show "keyOf ?x = (t, b, i)" by (simp add: keyOf_def)
      show "lookupK (lru_elements (put_body t i b item m mv c)) k' =
              (if k' = (t, b, i) then Some (PushFront (cache c)) else lookupK (lru_elements c) k')" for k'
        by (simp add: put_body_def False None calculateCost_def Let_def lookupK_insert3)
    qed
  next
    case (Some e)
    from Some have l: "lookupK (lru_elements c) (t, b, i) = Some e" by (simp add: lookupK_def)
    from lru_inv_lookup[OF inv l] have mem: "e \<in> set (cache c)" by auto
    show ?thesis
    proof (rule lru_inv_update_node[OF inv, where e = e and x = "(nodes c e)\<lparr>innerItem := item, innerMemUsage := m\<rparr>"])
      show "set (cache (put_body t i b item m mv c)) = set (cache c)"
        using lru_inv_distinct[OF inv] by (simp add: put_body_def False Some calculateCost_def Let_def MoveToFront_set)
      show "distinct (cache (put_body t i b item m mv c))"
        using lru_inv_distinct[OF inv] by (simp add: put_body_def False Some calculateCost_def Let_def MoveToFront_distinct)
      show "lru_elements (put_body t i b item m mv c) = lru_elements c"
        by (simp add: put_body_def False Some calculateCost_def Let_def)
      show "nodes (put_body t i b item m mv c) = (nodes c)(e := (nodes c e)\<lparr>innerItem := item, innerMemUsage := m\<rparr>)"
        by (simp add: put_body_def False Some calculateCost_def Let_def)
      show "keyOf ((nodes c e)\<lparr>innerItem := item, innerMemUsage := m\<rparr>) = keyOf (nodes c e)"
        by (simp add: keyOf_def)
    qed
  qed
qed

lemma sum_remove1:
  fixes f :: "elem \<Rightarrow> int64"
  shows "e \<in> set xs \<Longrightarrow> sum_list (map f (remove1 e xs)) = sum_list (map f xs) - f e"
  by (simp add: sum_list_map_remove1[of e xs f])

lemma map_upd_notin: "e \<notin> set ys \<Longrightarrow> map (f(e := v)) ys = map f ys"
  by (induction ys) auto

lemma sum_MoveToFront:
  fixes f :: "elem \<Rightarrow> int64"
  shows "sum_list (map f (MoveToFront e xs)) = sum_list (map f xs)"
  by (simp add: MoveToFront_def sum_list_map_remove1[of e xs f])

lemma sum_upd:
  fixes f :: "elem \<Rightarrow> int64"
  assumes "distinct xs" "e \<in> set xs"
  shows "sum_list (map (f(e := v)) xs) = sum_list (map f xs) - f e + v"
proof -
  have n: "e \<notin> set (remove1 e xs)" using assms by simp
  have "sum_list (map (f(e := v)) xs) = (f(e := v)) e + sum_list (map (f(e := v)) (remove1 e xs))"
    by (rule sum_list_map_remove1[OF assms(2)])
  also have "\<dots> = v + sum_list (map f (remove1 e xs))" by (simp add: map_upd_notin[OF n])
  also have "\<dots> = v + (sum_list (map f xs) - f e)" by (simp add: sum_remove1[OF assms(2)])
  finally show ?thesis by simp
qed

lemma storedMem_upd:
  "nodes c' = (nodes c)(e := x) \<Longrightarrow> storedMem c' = (storedMem c)(e := TrackingMemUsage (innerMemUsage x))"
  by (auto simp: storedMem_def fun_eq_iff)

lemma storedMem_same: "nodes c' = nodes c \<Longrightarrow> storedMem c' = storedMem c"
  by (auto simp: storedMem_def fun_eq_iff)

lemma evictStep_fst: "fst (evictStep I e (c, h, s)) = Prev (cache c) e"
  by (simp add: evictStep_def Let_def)

lemma evictStep_heap: "fst (snd (snd (evictStep I e st))) = stepHeap I st e"
  by (cases st) (simp add: evictStep_def Let_def stepHeap_def stepItem_def)

lemma evictStep_cost:
  "trackingCost (fst (snd (evictStep I e st))) =
     trackingCost (fst st) + (TrackingMemUsage (stepMem I st e) - TrackingMemUsage (innerMemUsage (stepItem st e)))"
  by (cases st) (simp add: evictStep_def Let_def stepHeap_def stepItem_def stepMem_def calculateCost_def)

lemma evictStep_capacity: "capacity (fst (snd (evictStep I e st))) = capacity (fst st)"
  by (cases st) (simp add: evictStep_def Let_def calculateCost_def)

lemma evictStep_onEvict: "onEvict (fst (snd (evictStep I e st))) = onEvict (fst st)"
  by (cases st) (simp add: evictStep_def Let_def calculateCost_def)

lemma evictStep_cache:
  "cache (fst (snd (evictStep I e st))) =
     (if stepRemoves I st e then Remove e (cache (fst st)) else MoveToFront e (cache (fst st)))"
  by (cases st) (simp add: evictStep_def Let_def stepHeap_def stepItem_def stepMem_def stepRemoves_def calculateCost_def)

lemma evictStep_elements:
  "lru_elements (fst (snd (evictStep I e st))) =
     (if stepRemoves I st e
      then delete3 (lru_elements (fst st)) (tblID (stepItem st e)) (isIndex (stepItem st e)) (itemID (stepItem st e))
      else lru_elements (fst st))"
  by (cases st) (simp add: evictStep_def Let_def stepHeap_def stepItem_def stepMem_def stepRemoves_def calculateCost_def)

lemma evictStep_nodes:
  "nodes (fst (snd (evictStep I e st))) =
     (if stepRemoves I st e then nodes (fst st)
      else (nodes (fst st))(e := (stepItem st e)\<lparr>innerMemUsage := stepMem I st e\<rparr>))"
  by (cases st) (simp add: evictStep_def Let_def stepHeap_def stepItem_def stepMem_def stepRemoves_def calculateCost_def)

lemma evictStep_outer:
  "snd (snd (snd (evictStep I e st))) =
     (case onEvict (fst st) of None \<Rightarrow> snd (snd st)
      | Some f \<Rightarrow> f (tblID (stepItem st e)) (stepHeap I st e) (snd (snd st)))"
  by (cases st) (auto simp: evictStep_def Let_def stepHeap_def stepItem_def calculateCost_def split: option.splits)

lemma lru_inv_evictStep:
  assumes inv: "lru_inv (fst st)" and mem: "e \<in> set (cache (fst st))"
  shows "lru_inv (fst (snd (evictStep I e st)))"
proof (cases "stepRemoves I st e")
  case True
  show ?thesis
  proof (rule lru_inv_remove[OF inv mem])
    show "cache (fst (snd (evictStep I e st))) = remove1 e (cache (fst st))"
      by (simp add: evictStep_cache True Remove_def)
    show "nodes (fst (snd (evictStep I e st))) = nodes (fst st)"
      by (simp add: evictStep_nodes True)
    show "lookupK (lru_elements (fst (snd (evictStep I e st)))) k =
            (if k = keyOf (nodes (fst st) e) then None else lookupK (lru_elements (fst st)) k)" for k
      by (simp add: evictStep_elements True lookupK_delete3 keyOf_def stepItem_def)
  qed
next
  case False
  show ?thesis
  proof (rule lru_inv_update_node[OF inv, where e = e and x = "(stepItem st e)\<lparr>innerMemUsage := stepMem I st e\<rparr>"])
    show "set (cache (fst (snd (evictStep I e st)))) = set (cache (fst st))"
      by (simp add: evictStep_cache False MoveToFront_set[OF lru_inv_distinct[OF inv]])
    show "distinct (cache (fst (snd (evictStep I e st))))"
      by (simp add: evictStep_cache False MoveToFront_distinct[OF lru_inv_distinct[OF inv]])
    show "lru_elements (fst (snd (evictStep I e st))) = lru_elements (fst st)"
      by (simp add: evictStep_elements False)
    show "nodes (fst (snd (evictStep I e st))) = (nodes (fst st))(e := (stepItem st e)\<lparr>innerMemUsage := stepMem I st e\<rparr>)"
      by (simp add: evictStep_nodes False)
    show "keyOf ((stepItem st e)\<lparr>innerMemUsage := stepMem I st e\<rparr>) = keyOf (nodes (fst st) e)"
      by (simp add: keyOf_def stepItem_def)
  qed
qed

lemma evictStep_prev: "fst (evictStep I e st) = Prev (cache (fst st)) e"
  by (cases st) (simp add: evictStep_fst)

lemma at_back_evictStep:
  assumes d: "distinct (cache (fst st))" and ne: "cache (fst st) \<noteq> []" and e: "last (cache (fst st)) = e"
  shows "at_back (fst (evictStep I e st)) (fst (snd (evictStep I e st)))"
proof -
  let ?xs = "cache (fst st)"
  have p: "fst (evictStep I e st) = Back (butlast ?xs)"
    using Prev_last[of ?xs] d ne e by (simp add: evictStep_prev)
  have r: "remove1 e ?xs = butlast ?xs"
    using remove1_last[of ?xs] d ne e by simp
  have m: "e \<in> set ?xs" using ne e by (metis last_in_set)
  show ?thesis
  proof (cases "butlast ?xs = []")
    case True
    then show ?thesis
      by (simp add: p Back_def at_back_def evictStep_cache Remove_def MoveToFront_def r m)
  next
    case False
    then show ?thesis
      by (simp add: p Back_def at_back_def evictStep_cache Remove_def MoveToFront_def r m)
  qed
qed

lemma cost_evictStep:
  assumes free: "evicted_is_free I" and inv: "lru_inv (fst st)" and mem: "e \<in> set (cache (fst st))"
      and cost: "trackingCost (fst st) = storedSum (fst st)"
  shows "trackingCost (fst (snd (evictStep I e st))) = storedSum (fst (snd (evictStep I e st)))"
proof (cases "stepRemoves I st e")
  case True
  then have z: "TrackingMemUsage (stepMem I st e) = 0"
    using free by (auto simp: stepRemoves_def evicted_is_free_def stepMem_def)
  have "storedSum (fst (snd (evictStep I e st))) = sum_list (map (storedMem (fst st)) (remove1 e (cache (fst st))))"
    by (simp add: storedSum_def evictStep_cache True Remove_def storedMem_same[OF evictStep_nodes[of I e st, simplified True if_True]])
  also have "\<dots> = storedSum (fst st) - storedMem (fst st) e"
    by (simp add: sum_remove1[OF mem] storedSum_def)
  finally show ?thesis
    by (simp add: evictStep_cost z cost storedMem_def stepItem_def)
next
  case False
  have n: "nodes (fst (snd (evictStep I e st))) = (nodes (fst st))(e := (stepItem st e)\<lparr>innerMemUsage := stepMem I st e\<rparr>)"
    by (simp add: evictStep_nodes False)
  have "storedSum (fst (snd (evictStep I e st))) =
          sum_list (map ((storedMem (fst st))(e := TrackingMemUsage (stepMem I st e))) (cache (fst st)))"
    by (simp add: storedSum_def evictStep_cache False sum_MoveToFront storedMem_upd[OF n])
  also have "\<dots> = storedSum (fst st) - storedMem (fst st) e + TrackingMemUsage (stepMem I st e)"
    by (simp add: sum_upd[OF lru_inv_distinct[OF inv] mem] storedSum_def)
  finally show ?thesis
    by (simp add: evictStep_cost cost storedMem_def stepItem_def)
qed

lemma at_back_Back: "at_back (Back (cache c)) c"
  by (simp add: at_back_def Back_def)

lemma evictLoop_inv:
  assumes run: "evictLoop I cur st = Some st'"
      and inv: "lru_inv (fst st)" and ab: "at_back cur (fst st)" and Q: "Q st"
      and Qstep: "\<And>e st. Q st \<Longrightarrow> lru_inv (fst st) \<Longrightarrow> e \<in> set (cache (fst st)) \<Longrightarrow>
                    last (cache (fst st)) = e \<Longrightarrow> over (fst st) \<Longrightarrow> Q (snd (evictStep I e st))"
  shows "lru_inv (fst st') \<and> Q st' \<and> (\<not> over (fst st') \<or> length (cache (fst st')) \<le> 1)"
proof -
  let ?R = "\<lambda>cur st. lru_inv (fst st) \<and> at_back cur (fst st) \<and> Q st"
  have "\<exists>cur'. ?R cur' st' \<and> (cur' = None \<or> \<not> over (fst st'))"
  proof (rule evictLoop_rule[where R = ?R, OF run])
    show "?R cur st" using inv ab Q by simp
  next
    fix e c h s prev st1
    assume R: "?R (Some e) (c, h, s)" and ov: "over c" and es: "evictStep I e (c, h, s) = (prev, st1)"
    from R have i: "lru_inv (fst (c, h, s))" and ne: "cache (fst (c, h, s)) \<noteq> []"
      and l: "last (cache (fst (c, h, s))) = e" and q: "Q (c, h, s)"
      by (simp_all add: at_back_def)
    from ne l have m: "e \<in> set (cache (fst (c, h, s)))" by (metis last_in_set)
    have "lru_inv (fst (snd (evictStep I e (c, h, s))))" by (rule lru_inv_evictStep[OF i m])
    moreover have "at_back (fst (evictStep I e (c, h, s))) (fst (snd (evictStep I e (c, h, s))))"
      by (rule at_back_evictStep[OF lru_inv_distinct[OF i] ne l])
    moreover have "Q (snd (evictStep I e (c, h, s)))"
      using Qstep[OF q i m l] ov by simp
    ultimately show "?R prev st1" by (simp add: es)
  qed
  then show ?thesis by (auto simp: at_back_def)
qed

lemma evictIfNeeded_inv:
  assumes run: "evictIfNeeded I st = Some st'"
      and inv: "lru_inv (fst st)" and Q: "Q st"
      and Qstep: "\<And>e st. Q st \<Longrightarrow> lru_inv (fst st) \<Longrightarrow> e \<in> set (cache (fst st)) \<Longrightarrow>
                    last (cache (fst st)) = e \<Longrightarrow> over (fst st) \<Longrightarrow> Q (snd (evictStep I e st))"
  shows "lru_inv (fst st') \<and> Q st' \<and> (\<not> over (fst st') \<or> length (cache (fst st')) \<le> 1)"
proof -
  from run have r: "evictLoop I (Back (cache (fst st))) st = Some st'"
    by (simp add: evictIfNeeded_def)
  show ?thesis
    by (rule evictLoop_inv[where Q = Q, OF r inv at_back_Back Q]) (rule Qstep)
qed

subsection \<open>Unfolding concrete runs\<close>

lemmas run_defs =
  Put_def StatsInnerCache_put_def updateColumns_def updateIndices_def delOld_def Table_MemoryUsage_def
  listItem_def store0_def mem_def table_def lookup2_def
  NewStatsLruCache_def newInnerLruCache_def put_def put_body_def lookup3_def insert3_def PushFront_def calculateCost_def
  zeroMemUsage_def evictIfNeeded_def Back_def evictLoop.simps evictStep_def MoveToFront_def Remove_def delete3_def
  StatsInnerCache_onEvict_def Cost_def Let_def word_sless_alt MaxInt64_def Front_def Front_elem_def del_def

subsection \<open>C8: Front\<close>

text \<open>
  Claim C8. \<open>Front()\<close> returns 0, the zero sentinel, when the inner LRU is empty, and the
  table ID of the front element of the list otherwise. \<open>Front\<close> is a total function of
  the cache: no path of it panics.
\<close>

theorem Front_spec:
  "Front S = (if cache (lru S) = [] then 0 else tblID (nodes (lru S) (hd (cache (lru S)))))"
  by (cases "cache (lru S)") (simp_all add: Front_def Front_elem_def)

theorem Front_spec_witness:
  "Front (NewStatsLruCache listItem 100) = 0 \<and>
   map_option (\<lambda>r. case r of Ok (S, h) \<Rightarrow> (cache (lru S), Front S) | Panic \<Rightarrow> ([], 0))
     (Put listItem 7 (table [(1, 1)] []) False (NewStatsLruCache listItem 100, store0)) = Some ([1], 7)"
  using Front_spec[of "NewStatsLruCache listItem 100"]
  by (simp add: run_defs)

lemma evictLoop_None: "evictLoop I None st = Some st"
  by (simp add: evictLoop.simps)

lemma evictLoop_Some:
  "evictLoop I (Some e) st =
     (if over (fst st) then evictLoop I (fst (evictStep I e st)) (snd (evictStep I e st)) else Some st)"
  by (subst evictLoop.simps) (simp add: over_def split: prod.splits)

lemma evictIfNeeded_not_over: "\<not> over (fst st) \<Longrightarrow> evictIfNeeded I st = Some st"
  by (cases "Back (cache (fst st))") (simp_all add: evictIfNeeded_def evictLoop_None evictLoop_Some)

lemma evictIfNeeded_empty: "cache (fst st) = [] \<Longrightarrow> evictIfNeeded I st = Some st"
  by (simp add: evictIfNeeded_def evictLoop_None Back_def)

subsection \<open>C3: the eviction procedure\<close>

text \<open>
  Claim C3. \<open>evictIfNeeded\<close> starts at the back of the list and goes on while
  \<open>trackingCost > capacity\<close> and the current element is not nil. At the element \<open>e\<close> it
  calls \<open>DropEvicted\<close> on the item, reads the item's usage anew and adds the difference
  to \<open>trackingCost\<close> in either case. When the new tracking usage is 0 or the item is
  all evicted, the element leaves the list and the index (in a well-formed LRU it is
  then in neither); otherwise it moves to the front and stores the new usage. The next
  element is the predecessor \<open>e\<close> had before the list changed: with \<open>e\<close> at the back,
  the element before it, which is the back of the list after the turn.
\<close>

theorem evictIfNeeded_walk:
  "evictIfNeeded I st = evictLoop I (Back (cache (fst st))) st \<and>
   evictLoop I None st = Some st \<and>
   evictLoop I (Some e) st =
     (if word_sless (capacity (fst st)) (trackingCost (fst st))
      then evictLoop I (Prev (cache (fst st)) e) (snd (evictStep I e st))
      else Some st) \<and>
   (let c = fst st; h = fst (snd st); item = nodes c e;
        c' = fst (snd (evictStep I e st)); h' = fst (snd (snd (evictStep I e st)));
        newMem = MemoryUsage I (h' (innerItem item))
    in h' = h(innerItem item := DropEvicted I (h (innerItem item))) \<and>
       trackingCost c' = trackingCost c + (TrackingMemUsage newMem - TrackingMemUsage (innerMemUsage item)) \<and>
       (if TrackingMemUsage newMem = 0 \<or> IsAllEvicted I (h' (innerItem item))
        then cache c' = remove1 e (cache c) \<and>
             lru_elements c' = delete3 (lru_elements c) (tblID item) (isIndex item) (itemID item) \<and>
             nodes c' = nodes c \<and>
             (lru_inv c \<longrightarrow> e \<in> set (cache c) \<longrightarrow>
                e \<notin> set (cache c') \<and> lookup3 (lru_elements c') (tblID item) (isIndex item) (itemID item) = None)
        else cache c' = (if e \<in> set (cache c) then e # remove1 e (cache c) else cache c) \<and>
             lru_elements c' = lru_elements c \<and>
             nodes c' = (nodes c)(e := item\<lparr>innerMemUsage := newMem\<rparr>)) \<and>
       (lru_inv c \<longrightarrow> cache c \<noteq> [] \<longrightarrow> last (cache c) = e \<longrightarrow>
          Prev (cache c) e = Back (butlast (cache c)) \<and> at_back (Prev (cache c) e) c'))"
proof -
  have 1: "evictLoop I (Some e) st =
     (if word_sless (capacity (fst st)) (trackingCost (fst st))
      then evictLoop I (Prev (cache (fst st)) e) (snd (evictStep I e st))
      else Some st)"
    by (simp add: evictLoop_Some evictStep_prev over_def)
  have 2: "lru_inv (fst st) \<Longrightarrow> e \<in> set (cache (fst st)) \<Longrightarrow> e \<notin> set (remove1 e (cache (fst st)))"
    using lru_inv_distinct[of "fst st"] by simp
  have 3: "lru_inv (fst st) \<Longrightarrow> cache (fst st) \<noteq> [] \<Longrightarrow> last (cache (fst st)) = e \<Longrightarrow>
          Prev (cache (fst st)) e = Back (butlast (cache (fst st))) \<and>
          at_back (Prev (cache (fst st)) e) (fst (snd (evictStep I e st)))"
    using at_back_evictStep[of st e I] Prev_last[of "cache (fst st)"] lru_inv_distinct[of "fst st"]
    by (simp add: evictStep_prev)
  let ?c = "fst st" and ?c' = "fst (snd (evictStep I e st))" and ?h' = "fst (snd (snd (evictStep I e st)))"
  let ?item = "nodes (fst st) e"
  let ?new = "MemoryUsage I (?h' (innerItem ?item))"
  let ?cond = "TrackingMemUsage ?new = 0 \<or> IsAllEvicted I (?h' (innerItem ?item))"
  have 4: "?h' = (fst (snd st))(innerItem ?item := DropEvicted I (fst (snd st) (innerItem ?item)))"
    by (simp add: evictStep_heap stepHeap_def stepItem_def Let_def)
  have 7: "stepMem I st e = ?new"
    by (simp add: evictStep_heap stepMem_def stepItem_def)
  have 5: "trackingCost ?c' = trackingCost ?c + (TrackingMemUsage ?new - TrackingMemUsage (innerMemUsage ?item))"
    by (simp add: evictStep_cost 7[symmetric] stepItem_def)
  have 6: "stepRemoves I st e \<longleftrightarrow> ?cond"
    by (simp add: evictStep_heap stepRemoves_def stepMem_def stepItem_def)
  have 8: "if ?cond
        then cache ?c' = remove1 e (cache ?c) \<and>
             lru_elements ?c' = delete3 (lru_elements ?c) (tblID ?item) (isIndex ?item) (itemID ?item) \<and>
             nodes ?c' = nodes ?c \<and>
             (lru_inv ?c \<longrightarrow> e \<in> set (cache ?c) \<longrightarrow>
                e \<notin> set (cache ?c') \<and> lookup3 (lru_elements ?c') (tblID ?item) (isIndex ?item) (itemID ?item) = None)
        else cache ?c' = (if e \<in> set (cache ?c) then e # remove1 e (cache ?c) else cache ?c) \<and>
             lru_elements ?c' = lru_elements ?c \<and>
             nodes ?c' = (nodes ?c)(e := ?item\<lparr>innerMemUsage := ?new\<rparr>)"
  proof (cases "stepRemoves I st e")
    case True
    with 6 have c: ?cond by simp
    have "cache ?c' = remove1 e (cache ?c)" by (simp add: evictStep_cache True Remove_def)
    moreover have "lru_elements ?c' = delete3 (lru_elements ?c) (tblID ?item) (isIndex ?item) (itemID ?item)"
      by (simp add: evictStep_elements True stepItem_def)
    moreover have "nodes ?c' = nodes ?c" by (simp add: evictStep_nodes True)
    ultimately show ?thesis unfolding if_P[OF c] using 2 by (simp add: lookup3_delete3)
  next
    case False
    with 6 have c: "\<not> ?cond" by simp
    have "cache ?c' = (if e \<in> set (cache ?c) then e # remove1 e (cache ?c) else cache ?c)"
      by (simp add: evictStep_cache False MoveToFront_def)
    moreover have "lru_elements ?c' = lru_elements ?c" by (simp add: evictStep_elements False)
    moreover have "nodes ?c' = (nodes ?c)(e := ?item\<lparr>innerMemUsage := ?new\<rparr>)"
      by (simp add: evictStep_nodes False 7[symmetric] stepItem_def)
    ultimately show ?thesis unfolding if_not_P[OF c] by blast
  qed
  have 0: "evictIfNeeded I st = evictLoop I (Back (cache (fst st))) st"
    by (simp add: evictIfNeeded_def)
  show ?thesis
    unfolding Let_def using 0 evictLoop_None[of I st] 1 4 5 8 3 by blast
qed

theorem evictIfNeeded_walk_witness:
  "lru_inv (fst two_over) \<and> cache (fst two_over) = [2, 1] \<and> last (cache (fst two_over)) = 1 \<and>
   Prev (cache (fst two_over)) 1 = Some 2 \<and>
   at_back (Some 2) (fst (snd (evictStep listItem 1 two_over))) \<and>
   cache (fst (snd (evictStep listItem 1 two_over))) = [1, 2] \<and>
   trackingCost (fst (snd (evictStep listItem 1 two_over))) = 35 \<and>
   map_option (\<lambda>st. (cache (fst st), trackingCost (fst st))) (evictIfNeeded listItem two_over) = Some ([1], 15)"
proof -
  have inv: "lru_inv (fst two_over)"
    by (simp add: two_over_def lru_inv_put_body lru_inv_newInnerLruCache)
  have c: "cache (fst two_over) = [2, 1]"
    by (simp add: two_over_def run_defs)
  note w = evictIfNeeded_walk[of listItem two_over 1, unfolded Let_def]
  from w have "lru_inv (fst two_over) \<longrightarrow> cache (fst two_over) \<noteq> [] \<longrightarrow> last (cache (fst two_over)) = 1 \<longrightarrow>
          Prev (cache (fst two_over)) 1 = Back (butlast (cache (fst two_over))) \<and>
          at_back (Prev (cache (fst two_over)) 1) (fst (snd (evictStep listItem 1 two_over)))"
    by (elim conjE)
  moreover have ne: "cache (fst two_over) \<noteq> []" unfolding c by simp
  moreover have l: "last (cache (fst two_over)) = 1" unfolding c by simp
  ultimately have p: "Prev (cache (fst two_over)) 1 = Back (butlast (cache (fst two_over))) \<and>
          at_back (Prev (cache (fst two_over)) 1) (fst (snd (evictStep listItem 1 two_over)))"
    using inv by blast
  have e: "map_option (\<lambda>st. (cache (fst st), trackingCost (fst st))) (evictIfNeeded listItem two_over) = Some ([1], 15)"
    by (simp add: two_over_def run_defs)
  have s: "cache (fst (snd (evictStep listItem 1 two_over))) = [1, 2] \<and>
   trackingCost (fst (snd (evictStep listItem 1 two_over))) = 35"
    by (simp add: two_over_def run_defs)
  have q: "Back (butlast (cache (fst two_over))) = Some 2"
    unfolding c by (simp add: Back_def)
  have p1: "Prev (cache (fst two_over)) 1 = Some 2"
    using p unfolding q by (rule conjunct1)
  have p2: "at_back (Some 2) (fst (snd (evictStep listItem 1 two_over)))"
    using p unfolding p1 by (rule conjunct2)
  from inv c l p1 p2 s e show ?thesis by blast
qed

subsection \<open>C2: a put of an item that is free\<close>

text \<open>
  Claim C2, as amended. With \<open>trackingMemUsage < 1\<close> the body of \<open>put\<close> changes nothing:
  no entry is made, and an entry the key already has keeps its item, its usage and its
  place. The deferred function still runs: with \<open>needEvict = false\<close> the call leaves
  the state as it was, and with \<open>needEvict = true\<close> it is \<open>evictIfNeeded\<close>, which leaves
  the state as it was when \<open>trackingCost \<le> capacity\<close> or the list is empty.
\<close>

theorem put_free:
  assumes "word_sless (TrackingMemUsage itemMem) 1"
  shows "put_body t i b item itemMem needMove (fst st) = fst st \<and>
         put I t i b item itemMem needEvict needMove st = (if needEvict then evictIfNeeded I st else Some st) \<and>
         (\<not> needEvict \<or> \<not> word_sless (capacity (fst st)) (trackingCost (fst st)) \<or> cache (fst st) = [] \<longrightarrow>
            put I t i b item itemMem needEvict needMove st = Some st)"
proof -
  have b: "put_body t i b item itemMem needMove c = c" for c :: "('a, 'b) innerItemLruCache"
    using assms by (simp add: put_body_def)
  have p: "put I t i b item itemMem needEvict needMove st = (if needEvict then evictIfNeeded I st else Some st)"
    by (cases st) (simp add: put_def b)
  show ?thesis
    using b p evictIfNeeded_not_over[of st I] evictIfNeeded_empty[of st I]
    by (auto simp: over_def)
qed

theorem put_free_witness:
  "word_sless (TrackingMemUsage (mem 0)) 1 \<and>
   put listItem 3 1 False 2 (mem 0) False True two_over = Some two_over \<and>
   put listItem 3 1 False 2 (mem 0) True True (newInnerLruCache 10, store0, ()) = Some (newInnerLruCache 10, store0, ())"
proof -
  have a: "word_sless (TrackingMemUsage (mem 0)) 1" by (simp add: mem_def word_sless_alt)
  have n: "cache (fst (newInnerLruCache 10 :: (int64 list, unit) innerItemLruCache, store0, ())) = []"
    by (simp add: newInnerLruCache_def)
  from put_free[OF a, of 3 1 False 2 True two_over listItem False]
  have r1: "put listItem 3 1 False 2 (mem 0) False True two_over = Some two_over" by blast
  from put_free[OF a, of 3 1 False 2 True "(newInnerLruCache 10, store0, ())" listItem True] n
  have r2: "put listItem 3 1 False 2 (mem 0) True True (newInnerLruCache 10, store0, ()) = Some (newInnerLruCache 10, store0, ())"
    by blast
  from a r1 r2 show ?thesis by blast
qed

theorem put_free_counterexample:
  "put listItem 1 1 False 4 (mem 20) True False (newInnerLruCache 10, store0, ()) = Some parked \<and>
   word_sless (TrackingMemUsage (mem 0)) 1 \<and>
   put listItem 2 1 False 1 (mem 0) True False parked \<noteq> Some parked \<and>
   map_option (\<lambda>st. (cache (fst st), trackingCost (fst st))) (put listItem 2 1 False 1 (mem 0) True False parked) = Some ([], 0)"
  by (simp add: parked_def run_defs zeroItem_def)

lemma lru_okI: "lru_inv c \<Longrightarrow> (evicted_is_free I \<Longrightarrow> trackingCost c = storedSum c) \<Longrightarrow> lru_ok I c"
  by (simp add: lru_ok_def)

lemma lru_ok_inv: "lru_ok I c \<Longrightarrow> lru_inv c"
  by (simp add: lru_ok_def)

lemma lru_ok_cost: "lru_ok I c \<Longrightarrow> evicted_is_free I \<Longrightarrow> trackingCost c = storedSum c"
  by (simp add: lru_ok_def)

lemma cost_newInnerLruCache: "trackingCost (newInnerLruCache c) = storedSum (newInnerLruCache c)"
  by (simp add: newInnerLruCache_def storedSum_def)

lemma cost_get: "trackingCost c = storedSum c \<Longrightarrow> trackingCost (fst (get c t i b)) = storedSum (fst (get c t i b))"
  by (cases "lookup3 (lru_elements c) t b i")
     (simp_all add: get_def storedSum_def sum_MoveToFront storedMem_def)

lemma cost_del:
  assumes inv: "lru_inv c" and cost: "trackingCost c = storedSum c"
  shows "trackingCost (del c t i b) = storedSum (del c t i b)"
proof (cases "lookup3 (lru_elements c) t b i")
  case None
  with cost show ?thesis by (simp add: del_def)
next
  case (Some e)
  then have l: "lookupK (lru_elements c) (t, b, i) = Some e" by (simp add: lookupK_def)
  from lru_inv_lookup[OF inv l] have mem: "e \<in> set (cache c)" by simp
  have n: "nodes (del c t i b) = nodes c" by (simp add: del_def Some calculateCost_def Let_def)
  have "storedSum (del c t i b) = sum_list (map (storedMem c) (remove1 e (cache c)))"
    by (simp add: storedSum_def storedMem_same[OF n]) (simp add: del_def Some calculateCost_def Let_def Remove_def)
  also have "\<dots> = storedSum c - storedMem c e" by (simp add: sum_remove1[OF mem] storedSum_def)
  finally show ?thesis
    by (simp add: del_def Some calculateCost_def Let_def cost storedMem_def zeroMemUsage_def)
qed

lemma cost_put_body:
  assumes inv: "lru_inv c" and cost: "trackingCost c = storedSum c"
  shows "trackingCost (put_body t i b item m mv c) = storedSum (put_body t i b item m mv c)"
proof (cases "word_sless (TrackingMemUsage m) 1")
  case True
  with cost show ?thesis by (simp add: put_body_def)
next
  case False
  show ?thesis
  proof (cases "lookup3 (lru_elements c) t b i")
    case None
    let ?x = "\<lparr>innerItem = item, innerMemUsage = m, tblID = t, itemID = i, isIndex = b\<rparr>"
    let ?e = "PushFront (cache c)"
    have n: "nodes (put_body t i b item m mv c) = (nodes c)(?e := ?x)"
      by (simp add: put_body_def False None calculateCost_def Let_def)
    have ca: "cache (put_body t i b item m mv c) = ?e # cache c"
      by (simp add: put_body_def False None calculateCost_def Let_def)
    have "storedSum (put_body t i b item m mv c) = TrackingMemUsage m + storedSum c"
      by (simp add: storedSum_def ca storedMem_upd[OF n] map_upd_notin[OF PushFront_fresh])
    then show ?thesis
      by (simp add: put_body_def False None calculateCost_def Let_def cost zeroMemUsage_def)
  next
    case (Some e)
    then have l: "lookupK (lru_elements c) (t, b, i) = Some e" by (simp add: lookupK_def)
    from lru_inv_lookup[OF inv l] have mem: "e \<in> set (cache c)" by simp
    let ?x = "(nodes c e)\<lparr>innerItem := item, innerMemUsage := m\<rparr>"
    have n: "nodes (put_body t i b item m mv c) = (nodes c)(e := ?x)"
      by (simp add: put_body_def False Some calculateCost_def Let_def)
    have ca: "cache (put_body t i b item m mv c) = (if mv then MoveToFront e (cache c) else cache c)"
      by (simp add: put_body_def False Some calculateCost_def Let_def)
    have "storedSum (put_body t i b item m mv c) = sum_list (map ((storedMem c)(e := TrackingMemUsage m)) (cache c))"
      by (simp add: storedSum_def ca storedMem_upd[OF n] sum_MoveToFront)
    also have "\<dots> = storedSum c - storedMem c e + TrackingMemUsage m"
      by (simp add: sum_upd[OF lru_inv_distinct[OF inv] mem] storedSum_def)
    finally show ?thesis
      by (simp add: put_body_def False Some calculateCost_def Let_def cost storedMem_def)
  qed
qed

lemma lru_ok_newInnerLruCache: "lru_ok I (newInnerLruCache c)"
  by (simp add: lru_ok_def lru_inv_newInnerLruCache cost_newInnerLruCache)

lemma lru_ok_get: "lru_ok I c \<Longrightarrow> lru_ok I (fst (get c t i b))"
  by (simp add: lru_ok_def lru_inv_get cost_get)

lemma lru_ok_del: "lru_ok I c \<Longrightarrow> lru_ok I (del c t i b)"
  by (simp add: lru_ok_def lru_inv_del cost_del)

lemma lru_ok_put_body: "lru_ok I c \<Longrightarrow> lru_ok I (put_body t i b item m mv c)"
  by (simp add: lru_ok_def lru_inv_put_body cost_put_body)

lemma lru_ok_evictStep: "lru_ok I (fst st) \<Longrightarrow> e \<in> set (cache (fst st)) \<Longrightarrow> lru_ok I (fst (snd (evictStep I e st)))"
  by (simp add: lru_ok_def lru_inv_evictStep cost_evictStep)

lemma lru_ok_evictIfNeeded:
  assumes run: "evictIfNeeded I st = Some st'" and ok: "lru_ok I (fst st)"
  shows "lru_ok I (fst st')"
proof -
  let ?Q = "\<lambda>st. evicted_is_free I \<longrightarrow> trackingCost (fst st) = storedSum (fst st)"
  have "lru_inv (fst st') \<and> ?Q st' \<and> (\<not> over (fst st') \<or> length (cache (fst st')) \<le> 1)"
  proof (rule evictIfNeeded_inv[where Q = ?Q, OF run])
    show "lru_inv (fst st)" using ok by (rule lru_ok_inv)
    show "?Q st" using ok by (simp add: lru_ok_def)
  next
    fix e and st :: "('a, 'b) lru_state"
    assume "?Q st" "lru_inv (fst st)" "e \<in> set (cache (fst st))"
    then show "?Q (snd (evictStep I e st))"
      using cost_evictStep[of I st e] by simp
  qed
  then show ?thesis by (simp add: lru_ok_def)
qed

lemma lru_ok_cong:
  "lru_ok I c \<Longrightarrow> lru_elements c' = lru_elements c \<Longrightarrow> nodes c' = nodes c \<Longrightarrow> cache c' = cache c \<Longrightarrow>
   trackingCost c' = trackingCost c \<Longrightarrow> lru_ok I c'"
  by (simp add: lru_ok_def lru_inv_def storedSum_def storedMem_def)

lemma lru_ok_put:
  assumes run: "put I t i b item m ne mv st = Some st'" and ok: "lru_ok I (fst st)"
  shows "lru_ok I (fst st')"
proof -
  obtain c h s where st: "st = (c, h, s)" by (cases st)
  show ?thesis
  proof (cases ne)
    case True
    with run st have "evictIfNeeded I (put_body t i b item m mv c, h, s) = Some st'" by (simp add: put_def)
    from lru_ok_evictIfNeeded[OF this] ok st show ?thesis by (simp add: lru_ok_put_body)
  next
    case False
    with run st have "st' = (put_body t i b item m mv c, h, s)" by (simp add: put_def)
    with ok st show ?thesis by (simp add: lru_ok_put_body)
  qed
qed

lemma lru_ok_setCapacity:
  assumes run: "setCapacity I n st = Some st'" and ok: "lru_ok I (fst st)"
  shows "lru_ok I (fst st')"
proof -
  obtain c h s where st: "st = (c, h, s)" by (cases st)
  let ?c = "c\<lparr>capacity := (if word_sless n 1 then MaxInt64 else n)\<rparr>"
  from run st have r: "evictIfNeeded I (?c, h, s) = Some st'" by (simp add: setCapacity_def)
  from ok st have okc: "lru_ok I c" by simp
  have "lru_ok I ?c" by (rule lru_ok_cong[OF okc]) simp_all
  with lru_ok_evictIfNeeded[OF r] show ?thesis by simp
qed

lemma lru_ok_copy_fold:
  "lru_ok I n \<Longrightarrow>
   lru_ok I (fold (\<lambda>cur newLRU.
             (let item = nodes c cur
              in put_body (tblID item) (itemID item) (isIndex item) (innerItem item) (innerMemUsage item)
                   False newLRU)) xs n)"
  by (induction xs arbitrary: n) (simp_all add: Let_def lru_ok_put_body)

lemma lru_ok_copy: "lru_ok I (copy c)"
  unfolding copy_def by (rule lru_ok_copy_fold) (rule lru_ok_newInnerLruCache)

lemma lru_reachable_ok: "lru_reachable I st \<Longrightarrow> lru_ok I (fst st)"
proof (induction rule: lru_reachable.induct)
  case (r_new c h s) show ?case by (simp add: lru_ok_newInnerLruCache)
next
  case (r_get c h s t i b) then show ?case by (simp add: lru_ok_get)
next
  case (r_put st t i b item itemMem needEvict needMove st')
  from lru_ok_put[OF r_put(2) r_put(3)] show ?case .
next
  case (r_del c h s t i b) then show ?case by (simp add: lru_ok_del)
next
  case (r_setCapacity st n st')
  from lru_ok_setCapacity[OF r_setCapacity(2) r_setCapacity(3)] show ?case .
next
  case (r_evict st st')
  from lru_ok_evictIfNeeded[OF r_evict(2) r_evict(3)] show ?case .
next
  case (r_copy c h s) show ?case by (simp add: lru_ok_copy)
next
  case (r_outside c h s f h' s')
  then have okc: "lru_ok I c" by simp
  have "lru_ok I (c\<lparr>onEvict := f\<rparr>)" by (rule lru_ok_cong[OF okc]) simp_all
  then show ?case by simp
qed

lemma ownedI: "(\<And>e. e \<in> set (cache c) \<Longrightarrow> keyOf (nodes c e) \<in> A) \<Longrightarrow> owned A c"
  by (simp add: owned_def)

lemma ownedD: "owned A c \<Longrightarrow> e \<in> set (cache c) \<Longrightarrow> keyOf (nodes c e) \<in> A"
  by (simp add: owned_def)

lemma owned_mono: "owned A c \<Longrightarrow> A \<subseteq> B \<Longrightarrow> owned B c"
  by (auto simp: owned_def)

lemma owned_cong:
  "owned A c \<Longrightarrow> nodes c' = nodes c \<Longrightarrow> set (cache c') \<subseteq> set (cache c) \<Longrightarrow> owned A c'"
  by (auto simp: owned_def)

lemma owned_new: "owned A (newInnerLruCache c)"
  by (simp add: owned_def newInnerLruCache_def)

lemma in_remove1D: "x \<in> set (remove1 a xs) \<Longrightarrow> x \<in> set xs"
  by (meson notin_set_remove1)

lemma get_frame:
  "nodes (fst (get c t i b)) = nodes c \<and> lru_elements (fst (get c t i b)) = lru_elements c \<and>
   onEvict (fst (get c t i b)) = onEvict c \<and> capacity (fst (get c t i b)) = capacity c \<and>
   trackingCost (fst (get c t i b)) = trackingCost c"
  by (cases "lookup3 (lru_elements c) t b i") (simp_all add: get_def)

lemma get_cache_set: "lru_inv c \<Longrightarrow> set (cache (fst (get c t i b))) = set (cache c)"
  by (cases "lookup3 (lru_elements c) t b i") (simp_all add: get_def MoveToFront_set lru_inv_distinct)

lemma owned_get: "lru_inv c \<Longrightarrow> owned A c \<Longrightarrow> owned A (fst (get c t i b))"
  by (rule owned_cong[of A c]) (simp_all add: get_frame get_cache_set)

lemma del_frame:
  "nodes (del c t i b) = nodes c \<and> onEvict (del c t i b) = onEvict c \<and> capacity (del c t i b) = capacity c"
  by (cases "lookup3 (lru_elements c) t b i") (simp_all add: del_def calculateCost_def Let_def)

lemma del_lookupK:
  "lookupK (lru_elements (del c t i b)) k = (if k = (t, b, i) then None else lookupK (lru_elements c) k)"
  by (cases k; cases "lookup3 (lru_elements c) t b i")
     (auto simp: del_def calculateCost_def Let_def lookup3_delete3 lookupK_def)

lemma owned_del:
  assumes inv: "lru_inv c" and o: "owned A c"
  shows "owned (A - {(t, b, i)}) (del c t i b)"
proof (rule ownedI)
  fix e assume m: "e \<in> set (cache (del c t i b))"
  have inv': "lru_inv (del c t i b)" by (rule lru_inv_del[OF inv])
  from lru_inv_mem[OF inv' m] have "keyOf (nodes (del c t i b) e) \<noteq> (t, b, i)"
    by (auto simp: del_lookupK)
  moreover have "e \<in> set (cache c)"
    using m by (cases "lookup3 (lru_elements c) t b i")
      (auto simp: del_def calculateCost_def Let_def Remove_def dest: in_remove1D)
  ultimately show "keyOf (nodes (del c t i b) e) \<in> A - {(t, b, i)}"
    using ownedD[OF o] by (simp add: del_frame)
qed

lemma put_body_frame:
  "onEvict (put_body t i b item m mv c) = onEvict c \<and> capacity (put_body t i b item m mv c) = capacity c"
  by (cases "lookup3 (lru_elements c) t b i") (simp_all add: put_body_def calculateCost_def Let_def)

lemma owned_put_body:
  assumes inv: "lru_inv c" and o: "owned A c"
  shows "owned (insert (t, b, i) A) (put_body t i b item m mv c)"
proof (cases "word_sless (TrackingMemUsage m) 1")
  case True
  with o show ?thesis by (auto simp: put_body_def owned_def)
next
  case False
  show ?thesis
  proof (cases "lookup3 (lru_elements c) t b i")
    case None
    show ?thesis
      using o PushFront_fresh[of "cache c"]
      by (auto simp: put_body_def False None calculateCost_def Let_def owned_def keyOf_def)
  next
    case (Some e)
    then have l: "lookupK (lru_elements c) (t, b, i) = Some e" by (simp add: lookupK_def)
    from lru_inv_lookup[OF inv l] have mem: "e \<in> set (cache c)" and k: "keyOf (nodes c e) = (t, b, i)" by auto
    have s: "set (cache (put_body t i b item m mv c)) = set (cache c)"
      by (simp add: put_body_def False Some calculateCost_def Let_def MoveToFront_set lru_inv_distinct[OF inv])
    have n: "nodes (put_body t i b item m mv c) = (nodes c)(e := (nodes c e)\<lparr>innerItem := item, innerMemUsage := m\<rparr>)"
      by (simp add: put_body_def False Some calculateCost_def Let_def)
    show ?thesis
      using o k by (auto simp: owned_def s n keyOf_def)
  qed
qed

lemma owned_evictStep:
  assumes inv: "lru_inv (fst st)" and o: "owned A (fst st)"
  shows "owned A (fst (snd (evictStep I e st)))"
proof (cases "stepRemoves I st e")
  case True
  show ?thesis
    by (rule owned_cong[OF o])
       (auto simp: evictStep_nodes evictStep_cache True Remove_def dest: in_remove1D)
next
  case False
  show ?thesis
    using o
    by (auto simp: owned_def evictStep_nodes evictStep_cache False MoveToFront_set[OF lru_inv_distinct[OF inv]]
          keyOf_def stepItem_def)
qed

lemma evictIfNeeded_frame:
  fixes st :: "('i, 's) lru_state"
  assumes run: "evictIfNeeded I st = Some st'"
      and ok: "lru_ok I (fst st)" and o: "owned A (fst st)" and P: "P (snd (snd st))"
      and cb: "\<And>f t h s. onEvict (fst st) = Some f \<Longrightarrow> P s \<Longrightarrow> P (f t h s)"
  shows "lru_ok I (fst st') \<and> owned A (fst st') \<and> onEvict (fst st') = onEvict (fst st) \<and>
         capacity (fst st') = capacity (fst st) \<and> P (snd (snd st')) \<and>
         (\<not> over (fst st') \<or> length (cache (fst st')) \<le> 1)"
proof -
  let ?Q = "\<lambda>st1 :: ('i, 's) lru_state.
       (evicted_is_free I \<longrightarrow> trackingCost (fst st1) = storedSum (fst st1)) \<and> owned A (fst st1) \<and>
       onEvict (fst st1) = onEvict (fst st) \<and> capacity (fst st1) = capacity (fst st) \<and> P (snd (snd st1))"
  have "lru_inv (fst st') \<and> ?Q st' \<and> (\<not> over (fst st') \<or> length (cache (fst st')) \<le> 1)"
  proof (rule evictIfNeeded_inv[where Q = ?Q, OF run])
    show "lru_inv (fst st)" using ok by (rule lru_ok_inv)
    show "?Q st" using ok o P by (simp add: lru_ok_def)
  next
    fix e and st1 :: "('i, 's) lru_state"
    assume Q: "?Q st1" and inv: "lru_inv (fst st1)" and m: "e \<in> set (cache (fst st1))"
    have "P (snd (snd (snd (evictStep I e st1))))"
    proof (cases "onEvict (fst st1)")
      case None
      with Q show ?thesis by (simp add: evictStep_outer)
    next
      case (Some f)
      with Q have f: "onEvict (fst st) = Some f" by simp
      from Q have p: "P (snd (snd st1))" by simp
      have "snd (snd (snd (evictStep I e st1))) = f (tblID (stepItem st1 e)) (stepHeap I st1 e) (snd (snd st1))"
        by (simp add: evictStep_outer Some)
      with cb[OF f p] show ?thesis by simp
    qed
    with Q inv m show "?Q (snd (evictStep I e st1))"
      using cost_evictStep[of I st1 e] owned_evictStep[of st1 A I e]
      by (simp add: evictStep_onEvict evictStep_capacity)
  qed
  then show ?thesis by (simp add: lru_ok_def)
qed

lemma put_frame:
  fixes st :: "('i, 's) lru_state"
  assumes run: "put I t i b item m ne mv st = Some st'"
      and ok: "lru_ok I (fst st)" and o: "owned A (fst st)" and P: "P (snd (snd st))"
      and cb: "\<And>f t h s. onEvict (fst st) = Some f \<Longrightarrow> P s \<Longrightarrow> P (f t h s)"
  shows "lru_ok I (fst st') \<and> owned (insert (t, b, i) A) (fst st') \<and> onEvict (fst st') = onEvict (fst st) \<and>
         capacity (fst st') = capacity (fst st) \<and> P (snd (snd st')) \<and>
         (ne \<longrightarrow> \<not> over (fst st') \<or> length (cache (fst st')) \<le> 1)"
proof -
  obtain c h s where st: "st = (c, h, s)" by (cases st)
  let ?c = "put_body t i b item m mv c"
  have ok': "lru_ok I ?c" using ok st by (simp add: lru_ok_put_body)
  have o': "owned (insert (t, b, i) A) ?c" using ok o st by (simp add: owned_put_body lru_ok_inv)
  show ?thesis
  proof (cases ne)
    case True
    with run st have r: "evictIfNeeded I (?c, h, s) = Some st'" by (simp add: put_def)
    have "lru_ok I (fst st') \<and> owned (insert (t, b, i) A) (fst st') \<and> onEvict (fst st') = onEvict (fst (?c, h, s)) \<and>
         capacity (fst st') = capacity (fst (?c, h, s)) \<and> P (snd (snd st')) \<and>
         (\<not> over (fst st') \<or> length (cache (fst st')) \<le> 1)"
    proof (rule evictIfNeeded_frame[where P = P, OF r])
      show "lru_ok I (fst (?c, h, s))" using ok' by simp
      show "owned (insert (t, b, i) A) (fst (?c, h, s))" using o' by simp
      show "P (snd (snd (?c, h, s)))" using P st by simp
      show "\<And>f t' h' s'. onEvict (fst (?c, h, s)) = Some f \<Longrightarrow> P s' \<Longrightarrow> P (f t' h' s')"
        using cb st by (simp add: put_body_frame)
    qed
    then show ?thesis using st by (simp add: put_body_frame)
  next
    case False
    with run st have "st' = (?c, h, s)" by (simp add: put_def)
    with ok' o' P st False show ?thesis by (simp add: put_body_frame)
  qed
qed

lemma update_same: "map_of al k = Some v \<Longrightarrow> AList.update k v al = al"
  by (induction al) auto

lemma tables_update: "tables (AList.update k el s) = AList.update k (tbl el) (tables s)"
  by (induction s) (auto simp: tables_def)

lemma map_of_tables: "map_of (tables s) k = map_option tbl (map_of s k)"
  by (induction s) (auto simp: tables_def)

lemma tables_onEvict: "tables (StatsInnerCache_onEvict I t h s) = tables s"
  by (cases "map_of s t")
     (simp_all add: StatsInnerCache_onEvict_def tables_update update_same map_of_tables)

lemma putItems_frame:
  fixes st :: "('i, 's) lru_state"
  assumes run: "putItems I t b mv mems items st = Some (Ok st')"
      and ok: "lru_ok I (fst st)" and o: "owned A (fst st)" and P: "P (snd (snd st))"
      and cb: "\<And>f t h s. onEvict (fst st) = Some f \<Longrightarrow> P s \<Longrightarrow> P (f t h s)"
  shows "lru_ok I (fst st') \<and> owned (A \<union> {(t, b, i) | i. i \<in> fst ` set items}) (fst st') \<and>
         onEvict (fst st') = onEvict (fst st) \<and> capacity (fst st') = capacity (fst st) \<and> P (snd (snd st')) \<and>
         (items \<noteq> [] \<longrightarrow> \<not> over (fst st') \<or> length (cache (fst st')) \<le> 1)"
  using run ok o P cb
proof (induction items arbitrary: st A)
  case Nil
  then show ?case by simp
next
  case (Cons x rest)
  obtain i item where x: "x = (i, item)" by (cases x)
  from Cons.prems(1) x obtain m st1 where m: "map_of mems i = Some m"
    and p: "put I t i b item m True mv st = Some st1"
    and r: "putItems I t b mv mems rest st1 = Some (Ok st')"
    by (auto split: option.splits)
  have f: "lru_ok I (fst st1) \<and> owned (insert (t, b, i) A) (fst st1) \<and> onEvict (fst st1) = onEvict (fst st) \<and>
         capacity (fst st1) = capacity (fst st) \<and> P (snd (snd st1)) \<and>
         (True \<longrightarrow> \<not> over (fst st1) \<or> length (cache (fst st1)) \<le> 1)"
    by (rule put_frame[where P = P, OF p Cons.prems(2) Cons.prems(3) Cons.prems(4)]) (rule Cons.prems(5))
  have g: "lru_ok I (fst st') \<and> owned (insert (t, b, i) A \<union> {(t, b, i) | i. i \<in> fst ` set rest}) (fst st') \<and>
         onEvict (fst st') = onEvict (fst st1) \<and> capacity (fst st') = capacity (fst st1) \<and> P (snd (snd st')) \<and>
         (rest \<noteq> [] \<longrightarrow> \<not> over (fst st') \<or> length (cache (fst st')) \<le> 1)"
  proof (rule Cons.IH[OF r])
    show "lru_ok I (fst st1)" "owned (insert (t, b, i) A) (fst st1)" "P (snd (snd st1))" using f by simp_all
    show "\<And>f' t' h' s'. onEvict (fst st1) = Some f' \<Longrightarrow> P s' \<Longrightarrow> P (f' t' h' s')"
      using f Cons.prems(5) by simp
  qed
  have e: "insert (t, b, i) A \<union> {(t, b, i) | i. i \<in> fst ` set rest} = A \<union> {(t, b, i') | i'. i' \<in> fst ` set (x # rest)}"
    using x by auto
  have last: "\<not> over (fst st') \<or> length (cache (fst st')) \<le> 1"
  proof (cases rest)
    case Nil
    with r have "st' = st1" by simp
    with f show ?thesis by simp
  next
    case (Cons a list)
    with g show ?thesis by simp
  qed
  from f g last show ?case unfolding e by simp
qed

lemma owned_present:
  assumes inv: "lru_inv c" and o: "owned A c"
  shows "owned {k \<in> A. lookupK (lru_elements c) k \<noteq> None} c"
proof (rule ownedI)
  fix e assume m: "e \<in> set (cache c)"
  from lru_inv_mem[OF inv m] ownedD[OF o m]
  show "keyOf (nodes c e) \<in> {k \<in> A. lookupK (lru_elements c) k \<noteq> None}" by simp
qed

lemma fold_del_frame:
  assumes ok: "lru_ok I c" and o: "owned A c"
  shows "lru_ok I (fold (\<lambda>i c. del c t i b) ds c) \<and> owned A (fold (\<lambda>i c. del c t i b) ds c) \<and>
         onEvict (fold (\<lambda>i c. del c t i b) ds c) = onEvict c \<and>
         capacity (fold (\<lambda>i c. del c t i b) ds c) = capacity c \<and>
         (\<forall>k. lookupK (lru_elements (fold (\<lambda>i c. del c t i b) ds c)) k =
               (if k \<in> {(t, b, i) | i. i \<in> set ds} then None else lookupK (lru_elements c) k))"
  using ok o
proof (induction ds arbitrary: c)
  case Nil
  then show ?case by simp
next
  case (Cons d ds)
  have ok': "lru_ok I (del c t d b)" using Cons.prems(1) by (rule lru_ok_del)
  have "owned (A - {(t, b, d)}) (del c t d b)"
    using Cons.prems by (intro owned_del) (simp_all add: lru_ok_inv)
  then have o': "owned A (del c t d b)" by (rule owned_mono) auto
  from Cons.IH[OF ok' o'] show ?case
    by (auto simp: del_frame del_lookupK)
qed

lemma delOld_frame:
  assumes ok: "lru_ok I c" and o: "owned A c"
  shows "lru_ok I (delOld t b new c) \<and> owned (A - {(t, b, i) | i. map_of new i = None}) (delOld t b new c) \<and>
         onEvict (delOld t b new c) = onEvict c \<and> capacity (delOld t b new c) = capacity c"
proof -
  let ?ds = "filter (\<lambda>oldID. map_of new oldID = None) (map fst (lookup2 (lru_elements c) t b))"
  let ?c = "fold (\<lambda>i c. del c t i b) ?ds c"
  have d: "delOld t b new c = ?c" by (simp add: delOld_def Let_def)
  note f = fold_del_frame[OF ok o, of t b ?ds]
  from f have f1: "lru_ok I ?c" and f2: "owned A ?c" and f3: "onEvict ?c = onEvict c"
    and f4: "capacity ?c = capacity c" by blast+
  from f have f5: "lookupK (lru_elements ?c) k =
       (if k \<in> {(t, b, i) | i. i \<in> set ?ds} then None else lookupK (lru_elements c) k)" for k
    by blast
  have gone: "lookupK (lru_elements ?c) (t, b, i) = None" if n: "map_of new i = None" for i
  proof (cases "lookup3 (lru_elements c) t b i")
    case None
    then show ?thesis unfolding f5 by (simp add: lookupK_def)
  next
    case (Some e)
    then have "i \<in> fst ` set (lookup2 (lru_elements c) t b)"
      by (metis lookup3_lookup2 map_of_SomeD image_eqI fst_conv)
    with n have "i \<in> set ?ds" by simp
    then have "(t, b, i) \<in> {(t, b, i) | i. i \<in> set ?ds}" by blast
    then show ?thesis unfolding f5 by (simp only: if_True)
  qed
  have "owned {k \<in> A. lookupK (lru_elements ?c) k \<noteq> None} ?c"
    by (rule owned_present[OF lru_ok_inv[OF f1] f2])
  then have "owned (A - {(t, b, i) | i. map_of new i = None}) ?c"
    by (rule owned_mono) (use gone in auto)
  with f1 f3 f4 show ?thesis unfolding d by blast
qed

lemma update_frame:
  fixes c :: "('i, outer) innerItemLruCache"
  assumes run: "putItems I t b mv mems items ((if map_of s t \<noteq> None then delOld t b items c else c), h, s)
                  = Some (Ok (c', h', s'))"
      and ok: "lru_ok I c" and cbk: "onEvict c = Some (StatsInnerCache_onEvict I)" and o: "owned A c"
      and absent: "map_of s t = None \<Longrightarrow> \<forall>i. (t, b, i) \<notin> A"
  shows "lru_ok I c' \<and> onEvict c' = Some (StatsInnerCache_onEvict I) \<and> capacity c' = capacity c \<and>
         tables s' = tables s \<and>
         owned ({k \<in> A. \<not> (fst k = t \<and> fst (snd k) = b)} \<union> {(t, b, i) | i. i \<in> fst ` set items}) c' \<and>
         (items \<noteq> [] \<longrightarrow> \<not> over c' \<or> length (cache c') \<le> 1)"
proof -
  let ?c0 = "if map_of s t \<noteq> None then delOld t b items c else c"
  let ?A0 = "{k \<in> A. \<not> (fst k = t \<and> fst (snd k) = b)} \<union> {(t, b, i) | i. i \<in> fst ` set items}"
  have c0: "lru_ok I ?c0 \<and> owned ?A0 ?c0 \<and> onEvict ?c0 = onEvict c \<and> capacity ?c0 = capacity c"
  proof (cases "map_of s t = None")
    case True
    have "owned ?A0 c" by (rule owned_mono[OF o]) (use absent[OF True] in auto)
    with True ok show ?thesis by simp
  next
    case False
    note d = delOld_frame[OF ok o, of t b items]
    from d have "owned (A - {(t, b, i) | i. map_of items i = None}) (delOld t b items c)" by blast
    then have "owned ?A0 (delOld t b items c)"
    proof (rule owned_mono)
      show "A - {(t, b, i) | i. map_of items i = None} \<subseteq> ?A0"
      proof
        fix k assume k: "k \<in> A - {(t, b, i) | i. map_of items i = None}"
        obtain t' b' i' where e: "k = (t', b', i')" by (cases k)
        show "k \<in> ?A0"
        proof (cases "t' = t \<and> b' = b")
          case True
          with k e have "map_of items i' \<noteq> None" by auto
          then have "i' \<in> fst ` set items" by (metis map_of_eq_None_iff)
          with True e show ?thesis by simp
        next
          case False
          with k e show ?thesis by auto
        qed
      qed
    qed
    with d False show ?thesis by simp
  qed
  let ?P = "\<lambda>x. tables x = tables s"
  have "lru_ok I (fst (c', h', s')) \<and>
        owned (?A0 \<union> {(t, b, i) | i. i \<in> fst ` set items}) (fst (c', h', s')) \<and>
        onEvict (fst (c', h', s')) = onEvict (fst (?c0, h, s)) \<and>
        capacity (fst (c', h', s')) = capacity (fst (?c0, h, s)) \<and> ?P (snd (snd (c', h', s'))) \<and>
        (items \<noteq> [] \<longrightarrow> \<not> over (fst (c', h', s')) \<or> length (cache (fst (c', h', s'))) \<le> 1)"
  proof (rule putItems_frame[where P = ?P, OF run])
    show "lru_ok I (fst (?c0, h, s))" using c0 by simp
    show "owned ?A0 (fst (?c0, h, s))" using c0 by simp
    show "?P (snd (snd (?c0, h, s)))" by simp
    fix f t' h'' s''
    assume "onEvict (fst (?c0, h, s)) = Some f" and p: "?P s''"
    with c0 cbk have "f = StatsInnerCache_onEvict I" by simp
    with p show "?P (f t' h'' s'')" by (simp add: tables_onEvict)
  qed
  moreover have "?A0 \<union> {(t, b, i) | i. i \<in> fst ` set items} = ?A0" by auto
  ultimately show ?thesis using c0 cbk by simp
qed

lemma in_keys_of:
  "(t, b, i) \<in> keys_of ts \<longleftrightarrow> (\<exists>tb. map_of ts t = Some tb \<and> i \<in> fst ` set (items_of tb b))"
  by (simp add: keys_of_def)

lemma keys_of_update:
  "keys_of (AList.update t tb ts) =
     {k \<in> keys_of ts. fst k \<noteq> t} \<union> {(t, b, i) | b i. i \<in> fst ` set (items_of tb b)}"
proof (rule set_eqI)
  fix k :: "int64 \<times> bool \<times> int64"
  obtain t' b' i' where k: "k = (t', b', i')" by (cases k)
  show "k \<in> keys_of (AList.update t tb ts) \<longleftrightarrow>
        k \<in> {k \<in> keys_of ts. fst k \<noteq> t} \<union> {(t, b, i) | b i. i \<in> fst ` set (items_of tb b)}"
    unfolding k by (cases "t' = t") (simp_all add: in_keys_of update_conv')
qed

lemma keys_of_absent: "map_of ts t = None \<Longrightarrow> (t, b, i) \<notin> keys_of ts"
  by (simp add: keys_of_def)

lemma updateColumns_Ok:
  "updateColumns I t tb m mv (S, h) = Some (Ok (S1, h1)) \<Longrightarrow>
   putItems I t False mv (ColumnsMemUsage m) (Columns tb)
     ((if map_of (elements S) t \<noteq> None then delOld t False (Columns tb) (lru S) else lru S), h, elements S)
     = Some (Ok (lru S1, h1, elements S1))"
  by (auto simp: updateColumns_def Let_def split: option.splits result.splits prod.splits)

lemma updateIndices_Ok:
  "updateIndices I t tb m mv (S, h) = Some (Ok (S1, h1)) \<Longrightarrow>
   putItems I t True mv (IndicesMemUsage m) (Indices tb)
     ((if map_of (elements S) t \<noteq> None then delOld t True (Indices tb) (lru S) else lru S), h, elements S)
     = Some (Ok (lru S1, h1, elements S1))"
  by (auto simp: updateIndices_def Let_def split: option.splits result.splits prod.splits)

lemma StatsInnerCache_put_Ok:
  "StatsInnerCache_put I t tb m mv (S, h) = Some (Ok (S', h')) \<Longrightarrow>
   \<exists>S1 h1 S2. updateColumns I t tb m mv (S, h) = Some (Ok (S1, h1)) \<and>
              updateIndices I t tb m mv (S1, h1) = Some (Ok (S2, h')) \<and>
              lru S' = lru S2 \<and>
              elements S' = AList.update t \<lparr>tbl = tb, tblMemUsage = Table_MemoryUsage I h' tb\<rparr> (elements S2)"
  by (auto simp: StatsInnerCache_put_def split: option.splits result.splits prod.splits)

lemma tables_same_None: "tables s1 = tables s \<Longrightarrow> (map_of s1 t = None) = (map_of s t = None)"
proof -
  assume a: "tables s1 = tables s"
  have "map_option tbl (map_of s1 t) = map_option tbl (map_of s t)"
    using map_of_tables[of s1 t] map_of_tables[of s t] unfolding a by (rule trans[OF sym])
  then show ?thesis by (cases "map_of s1 t"; cases "map_of s t") simp_all
qed

lemma map_fst_tables: "map fst (tables s) = map fst s"
  by (induction s) (auto simp: tables_def)

lemma tables_distinct: "tables s' = tables s \<Longrightarrow> distinct (map fst s') = distinct (map fst s)"
  using map_fst_tables[of s'] map_fst_tables[of s] by simp

lemma StatsInnerCache_put_frame:
  assumes inv: "cache_inv I S" and run: "StatsInnerCache_put I t tb m mv (S, h) = Some (Ok (S', h'))"
  shows "cache_inv I S' \<and> capacity (lru S') = capacity (lru S) \<and>
         tables (elements S') = AList.update t tb (tables (elements S)) \<and>
         map_of (elements S') t = Some \<lparr>tbl = tb, tblMemUsage = Table_MemoryUsage I h' tb\<rparr> \<and>
         (Indices tb \<noteq> [] \<or> Columns tb \<noteq> [] \<and> map_of (elements S) t = None \<longrightarrow>
            \<not> over (lru S') \<or> length (cache (lru S')) \<le> 1)"
proof -
  from StatsInnerCache_put_Ok[OF run] obtain S1 h1 S2 where
    uc: "updateColumns I t tb m mv (S, h) = Some (Ok (S1, h1))" and
    ui: "updateIndices I t tb m mv (S1, h1) = Some (Ok (S2, h'))" and
    l: "lru S' = lru S2" and
    e: "elements S' = AList.update t \<lparr>tbl = tb, tblMemUsage = Table_MemoryUsage I h' tb\<rparr> (elements S2)"
    by blast
  let ?A = "keys_of (tables (elements S))"
  let ?A1 = "{k \<in> ?A. \<not> (fst k = t \<and> fst (snd k) = False)} \<union> {(t, False, i) | i. i \<in> fst ` set (Columns tb)}"
  let ?A2 = "{k \<in> ?A1. \<not> (fst k = t \<and> fst (snd k) = True)} \<union> {(t, True, i) | i. i \<in> fst ` set (Indices tb)}"
  from inv have ok: "lru_ok I (lru S)" and cb: "onEvict (lru S) = Some (StatsInnerCache_onEvict I)"
    and cap: "\<not> word_sless (capacity (lru S)) 1" and o: "owned ?A (lru S)"
    and di: "distinct (map fst (elements S))"
    by (simp_all add: cache_inv_def)
  have 1: "lru_ok I (lru S1) \<and> onEvict (lru S1) = Some (StatsInnerCache_onEvict I) \<and>
         capacity (lru S1) = capacity (lru S) \<and> tables (elements S1) = tables (elements S) \<and>
         owned ?A1 (lru S1) \<and>
         (Columns tb \<noteq> [] \<longrightarrow> \<not> over (lru S1) \<or> length (cache (lru S1)) \<le> 1)"
  proof (rule update_frame[OF updateColumns_Ok[OF uc] ok cb o])
    assume "map_of (elements S) t = None"
    then show "\<forall>i. (t, False, i) \<notin> ?A" by (simp add: in_keys_of map_of_tables)
  qed
  have 2: "lru_ok I (lru S2) \<and> onEvict (lru S2) = Some (StatsInnerCache_onEvict I) \<and>
         capacity (lru S2) = capacity (lru S1) \<and> tables (elements S2) = tables (elements S1) \<and>
         owned ?A2 (lru S2) \<and>
         (Indices tb \<noteq> [] \<longrightarrow> \<not> over (lru S2) \<or> length (cache (lru S2)) \<le> 1)"
  proof (rule update_frame[where A = ?A1, OF updateIndices_Ok[OF ui]])
    show "lru_ok I (lru S1)" "onEvict (lru S1) = Some (StatsInnerCache_onEvict I)" "owned ?A1 (lru S1)"
      using 1 by simp_all
    assume "map_of (elements S1) t = None"
    moreover from 1 have "tables (elements S1) = tables (elements S)" by (elim conjE)
    ultimately have "map_of (elements S) t = None"
      using tables_same_None[of "elements S1" "elements S" t] by simp
    then show "\<forall>i. (t, True, i) \<notin> ?A1" by (simp add: in_keys_of map_of_tables)
  qed
  have t: "tables (elements S') = AList.update t tb (tables (elements S))"
    using 1 2 by (simp add: e tables_update)
  have "owned (keys_of (tables (elements S'))) (lru S2)"
  proof (rule owned_mono)
    show "owned ?A2 (lru S2)" using 2 by simp
    show "?A2 \<subseteq> keys_of (tables (elements S'))"
    proof
      fix k assume k: "k \<in> ?A2"
      obtain t' b' i' where kk: "k = (t', b', i')" by (cases k)
      show "k \<in> keys_of (tables (elements S'))"
      proof (cases "t' = t")
        case True
        have "i' \<in> fst ` set (items_of tb b')"
          using k unfolding kk True by (cases b') (simp_all add: items_of_def)
        with True kk show ?thesis by (simp add: t keys_of_update)
      next
        case False
        have "k \<in> ?A" using k False unfolding kk by simp
        with False kk show ?thesis by (simp add: t keys_of_update)
      qed
    qed
  qed
  moreover have "distinct (map fst (elements S'))"
  proof -
    from 1 2 have "tables (elements S2) = tables (elements S)" by simp
    from tables_distinct[OF this] di show ?thesis by (simp add: e distinct_update)
  qed
  ultimately have ci: "cache_inv I S'" using 1 2 cap by (simp add: cache_inv_def l)
  have same: "lru S2 = lru S1" if "Indices tb = []" "map_of (elements S) t = None"
  proof -
    from 1 have "tables (elements S1) = tables (elements S)" by (elim conjE)
    with that(2) have "map_of (elements S1) t = None"
      using tables_same_None[of "elements S1" "elements S" t] by simp
    with updateIndices_Ok[OF ui] that(1) show ?thesis by simp
  qed
  have ex: "\<not> over (lru S') \<or> length (cache (lru S')) \<le> 1"
    if "Indices tb \<noteq> [] \<or> Columns tb \<noteq> [] \<and> map_of (elements S) t = None"
  proof (cases "Indices tb = []")
    case True
    with that same 1 show ?thesis by (simp add: l)
  next
    case False
    with 2 show ?thesis by (simp add: l)
  qed
  from ci 1 2 t ex show ?thesis by (simp add: l e update_conv')
qed

lemma Put_frame:
  assumes inv: "cache_inv I S" and run: "Put I t tb mv (S, h) = Some (Ok (S', h'))"
  shows "cache_inv I S' \<and> capacity (lru S') = capacity (lru S) \<and>
         tables (elements S') = AList.update t tb (tables (elements S)) \<and>
         map_of (elements S') t = Some \<lparr>tbl = tb, tblMemUsage = Table_MemoryUsage I h' tb\<rparr> \<and>
         (Indices tb \<noteq> [] \<or> Columns tb \<noteq> [] \<and> map_of (elements S) t = None \<longrightarrow>
            \<not> over (lru S') \<or> length (cache (lru S')) \<le> 1)"
  using StatsInnerCache_put_frame[OF inv, of t tb "Table_MemoryUsage I h tb" mv h S' h'] run
  by (simp add: Put_def)

lemma not_sless_capacity: "\<not> word_sless (if word_sless (c :: int64) 1 then MaxInt64 else c) 1"
  by (simp add: MaxInt64_def word_sless_alt)

lemma cache_inv_new: "cache_inv I (NewStatsLruCache I c)"
proof -
  have "lru_ok I ((newInnerLruCache c :: ('a, outer) innerItemLruCache)\<lparr>onEvict := Some (StatsInnerCache_onEvict I)\<rparr>)"
    by (rule lru_ok_cong[OF lru_ok_newInnerLruCache[of I c]]) simp_all
  moreover have "\<not> word_sless (capacity (newInnerLruCache c :: ('a, outer) innerItemLruCache)) 1"
    using not_sless_capacity[of c] by (simp add: newInnerLruCache_def)
  ultimately show ?thesis
    by (simp add: cache_inv_def NewStatsLruCache_def owned_def) (simp add: newInnerLruCache_def)
qed

lemma fold_get_frame:
  assumes ok: "lru_ok I c" and o: "owned A c"
  shows "lru_ok I (fold (\<lambda>i c. fst (get c t i b)) ds c) \<and> owned A (fold (\<lambda>i c. fst (get c t i b)) ds c) \<and>
         onEvict (fold (\<lambda>i c. fst (get c t i b)) ds c) = onEvict c \<and>
         capacity (fold (\<lambda>i c. fst (get c t i b)) ds c) = capacity c \<and>
         trackingCost (fold (\<lambda>i c. fst (get c t i b)) ds c) = trackingCost c"
  using ok o
proof (induction ds arbitrary: c)
  case Nil
  then show ?case by simp
next
  case (Cons d ds)
  have ok': "lru_ok I (fst (get c t d b))" using Cons.prems(1) by (rule lru_ok_get)
  have o': "owned A (fst (get c t d b))"
    using Cons.prems by (intro owned_get) (simp_all add: lru_ok_inv)
  from Cons.IH[OF ok' o'] show ?case by (simp add: get_frame)
qed

lemma cache_inv_Get: assumes inv: "cache_inv I S" shows "cache_inv I (fst (Get S t mv))"
proof (cases "mv \<and> map_of (elements S) t \<noteq> None")
  case False
  with inv show ?thesis by (auto simp: Get_def getByQuery_def split: option.splits)
next
  case True
  then obtain el where el: "map_of (elements S) t = Some el" by auto
  let ?l1 = "fold (\<lambda>idxID c. fst (get c t idxID True)) (map fst (Indices (tbl el))) (lru S)"
  let ?l2 = "fold (\<lambda>colID c. fst (get c t colID False)) (map fst (Columns (tbl el))) ?l1"
  let ?A = "keys_of (tables (elements S))"
  from inv have ok: "lru_ok I (lru S)" and o: "owned ?A (lru S)" by (simp_all add: cache_inv_def)
  note 1 = fold_get_frame[OF ok o, of t True "map fst (Indices (tbl el))"]
  from 1 have ok1: "lru_ok I ?l1" and o1: "owned ?A ?l1" by simp_all
  note 2 = fold_get_frame[OF ok1 o1, of t False "map fst (Columns (tbl el))"]
  have g: "fst (Get S t mv) = S\<lparr>lru := ?l2\<rparr>"
    using True el by (simp add: Get_def getByQuery_def Let_def)
  show ?thesis using inv 1 2 unfolding g by (simp add: cache_inv_def)
qed

lemma tables_delete: "tables (AList.delete k s) = AList.delete k (tables s)"
  by (induction s) (auto simp: tables_def)

lemma keys_of_delete: "keys_of (AList.delete t ts) = {k \<in> keys_of ts. fst k \<noteq> t}"
proof (rule set_eqI)
  fix k :: "int64 \<times> bool \<times> int64"
  obtain t' b' i' where k: "k = (t', b', i')" by (cases k)
  show "k \<in> keys_of (AList.delete t ts) \<longleftrightarrow> k \<in> {k \<in> keys_of ts. fst k \<noteq> t}"
    unfolding k by (cases "t' = t") (simp_all add: in_keys_of delete_conv')
qed

lemma fold_del_lookupK:
  assumes ok: "lru_ok I c" and o: "owned A c"
  shows "lookupK (lru_elements (fold (\<lambda>i c. del c t i b) ds c)) k =
           (if k \<in> {(t, b, i) | i. i \<in> set ds} then None else lookupK (lru_elements c) k)"
  using fold_del_frame[OF ok o, of t b ds] by blast

lemma fold_del_ok:
  assumes ok: "lru_ok I c" and o: "owned A c"
  shows "lru_ok I (fold (\<lambda>i c. del c t i b) ds c)" and "owned A (fold (\<lambda>i c. del c t i b) ds c)"
    and "onEvict (fold (\<lambda>i c. del c t i b) ds c) = onEvict c"
    and "capacity (fold (\<lambda>i c. del c t i b) ds c) = capacity c"
  using fold_del_frame[OF ok o, of t b ds] by blast+

lemma cache_inv_Del: assumes inv: "cache_inv I S" shows "cache_inv I (Del S t)"
proof (cases "map_of (elements S) t")
  case None
  with inv show ?thesis by (simp add: Del_def)
next
  case (Some el)
  let ?l1 = "fold (\<lambda>idxID c. del c t idxID True) (map fst (Indices (tbl el))) (lru S)"
  let ?l2 = "fold (\<lambda>colID c. del c t colID False) (map fst (Columns (tbl el))) ?l1"
  let ?A = "keys_of (tables (elements S))"
  from inv have ok: "lru_ok I (lru S)" and o: "owned ?A (lru S)" by (simp_all add: cache_inv_def)
  note 1 = fold_del_ok[OF ok o, of t True "map fst (Indices (tbl el))"]
  note ok1 = 1(1) and o1 = 1(2)
  note k1 = fold_del_lookupK[OF ok o, of t True "map fst (Indices (tbl el))"]
  note 2 = fold_del_ok[OF ok1 o1, of t False "map fst (Columns (tbl el))"]
  note ok2 = 2(1) and o2 = 2(2)
  note k2 = fold_del_lookupK[OF ok1 o1, of t False "map fst (Columns (tbl el))"]
  have d: "Del S t = \<lparr>elements = AList.delete t (elements S), lru = ?l2\<rparr>"
    using Some by (simp add: Del_def Let_def)
  have "owned {k \<in> ?A. lookupK (lru_elements ?l2) k \<noteq> None} ?l2"
    by (rule owned_present[OF lru_ok_inv[OF ok2] o2])
  then have "owned (keys_of (tables (AList.delete t (elements S)))) ?l2"
  proof (rule owned_mono)
    show "{k \<in> ?A. lookupK (lru_elements ?l2) k \<noteq> None} \<subseteq> keys_of (tables (AList.delete t (elements S)))"
    proof
      fix k assume k: "k \<in> {k \<in> ?A. lookupK (lru_elements ?l2) k \<noteq> None}"
      obtain t' b' i' where kk: "k = (t', b', i')" by (cases k)
      have "t' \<noteq> t"
      proof
        assume t: "t' = t"
        from k have "i' \<in> fst ` set (items_of (tbl el) b')"
          unfolding kk t by (simp add: in_keys_of map_of_tables Some)
        then have "lookupK (lru_elements ?l2) (t, b', i') = None"
          unfolding k2 k1 by (cases b') (simp_all add: items_of_def)
        with k show False unfolding kk t by simp
      qed
      with k show "k \<in> keys_of (tables (AList.delete t (elements S)))"
        unfolding kk by (simp add: tables_delete keys_of_delete)
    qed
  qed
  with inv ok2 2 1 show ?thesis unfolding d by (simp add: cache_inv_def distinct_delete)
qed

lemma SetCapacity_frame:
  assumes inv: "cache_inv I S" and run: "SetCapacity I n (S, h) = Some (S', h')"
  shows "cache_inv I S' \<and> capacity (lru S') = (if word_sless n 1 then MaxInt64 else n) \<and>
         tables (elements S') = tables (elements S) \<and>
         (\<not> over (lru S') \<or> length (cache (lru S')) \<le> 1)"
proof -
  let ?c = "(lru S)\<lparr>capacity := (if word_sless n 1 then MaxInt64 else n)\<rparr>"
  let ?A = "keys_of (tables (elements S))"
  let ?P = "\<lambda>x. tables x = tables (elements S)"
  from run have r: "evictIfNeeded I (?c, h, elements S) = Some (lru S', h', elements S')"
    by (auto simp: SetCapacity_def setCapacity_def split: option.splits prod.splits)
  from inv have ok: "lru_ok I (lru S)" and cb: "onEvict (lru S) = Some (StatsInnerCache_onEvict I)"
    and o: "owned ?A (lru S)" and di: "distinct (map fst (elements S))"
    by (simp_all add: cache_inv_def)
  have okc: "lru_ok I ?c" by (rule lru_ok_cong[OF ok]) simp_all
  have oc: "owned ?A ?c" by (rule owned_cong[OF o]) simp_all
  have f: "lru_ok I (fst (lru S', h', elements S')) \<and> owned ?A (fst (lru S', h', elements S')) \<and>
         onEvict (fst (lru S', h', elements S')) = onEvict (fst (?c, h, elements S)) \<and>
         capacity (fst (lru S', h', elements S')) = capacity (fst (?c, h, elements S)) \<and>
         ?P (snd (snd (lru S', h', elements S'))) \<and>
         (\<not> over (fst (lru S', h', elements S')) \<or> length (cache (fst (lru S', h', elements S'))) \<le> 1)"
  proof (rule evictIfNeeded_frame[where P = ?P and A = ?A, OF r])
    show "lru_ok I (fst (?c, h, elements S))" using okc by simp
    show "owned ?A (fst (?c, h, elements S))" using oc by simp
    show "?P (snd (snd (?c, h, elements S)))" by simp
    fix f t' h'' s''
    assume "onEvict (fst (?c, h, elements S)) = Some f" and p: "?P s''"
    with cb have "f = StatsInnerCache_onEvict I" by simp
    with p show "?P (f t' h'' s'')" by (simp add: tables_onEvict)
  qed
  then have t: "tables (elements S') = tables (elements S)" by simp
  from tables_distinct[OF t] di have "distinct (map fst (elements S'))" by simp
  with f cb t not_sless_capacity[of n] show ?thesis by (simp add: cache_inv_def)
qed

lemma owned_copy_fold:
  fixes n :: "('i, 't) innerItemLruCache" and c :: "('i, 's) innerItemLruCache"
  assumes "lru_inv n" "owned A n" "\<forall>cur \<in> set ys. keyOf (nodes c cur) \<in> A"
  shows "owned A (fold (\<lambda>cur newLRU.
             (let item = nodes c cur
              in put_body (tblID item) (itemID item) (isIndex item) (innerItem item) (innerMemUsage item)
                   False newLRU)) ys n)"
  using assms
proof (induction ys arbitrary: n)
  case Nil
  then show ?case by simp
next
  case (Cons y ys)
  let ?item = "nodes c y"
  let ?n = "put_body (tblID ?item) (itemID ?item) (isIndex ?item) (innerItem ?item) (innerMemUsage ?item) False n"
  have "owned (insert (tblID ?item, isIndex ?item, itemID ?item) A) ?n"
    by (rule owned_put_body[OF Cons.prems(1) Cons.prems(2)])
  moreover have "insert (tblID ?item, isIndex ?item, itemID ?item) A = A"
    using Cons.prems(3) by (auto simp: keyOf_def)
  ultimately have o: "owned A ?n" by simp
  have i: "lru_inv ?n" by (rule lru_inv_put_body[OF Cons.prems(1)])
  from Cons.IH[OF i o] Cons.prems(3) show ?case by (simp add: Let_def)
qed

lemma owned_copy: assumes o: "owned A c" shows "owned A (copy c)"
  unfolding copy_def
proof (rule owned_copy_fold)
  show "lru_inv (newInnerLruCache (capacity c))" by (rule lru_inv_newInnerLruCache)
  show "owned A (newInnerLruCache (capacity c))" by (rule owned_new)
  show "\<forall>cur \<in> set (rev (cache c)). keyOf (nodes c cur) \<in> A" using o by (simp add: owned_def)
qed

lemma copy_fold_frame:
  "capacity (fold (\<lambda>cur newLRU.
             (let item = nodes c cur
              in put_body (tblID item) (itemID item) (isIndex item) (innerItem item) (innerMemUsage item)
                   False newLRU)) ys n) = capacity n"
  by (induction ys arbitrary: n) (simp_all add: Let_def put_body_frame)

lemma copy_capacity: "\<not> word_sless (capacity c) 1 \<Longrightarrow> capacity (copy c) = capacity c"
  by (simp add: copy_def copy_fold_frame newInnerLruCache_def)

lemma lruMapElement_copy_id: "lruMapElement_copy l = l"
  by (simp add: lruMapElement_copy_def)

lemma fold_update_append:
  "distinct (map fst xs) \<Longrightarrow> fst ` set xs \<inter> fst ` set ys = {} \<Longrightarrow>
   fold (\<lambda>(k, v) m. AList.update k v m) xs ys = ys @ xs"
proof (induction xs arbitrary: ys)
  case Nil
  then show ?case by simp
next
  case (Cons x xs)
  obtain k v where x: "x = (k, v)" by (cases x)
  from Cons.prems x have n: "k \<notin> fst ` set ys" by auto
  then have u: "AList.update k v ys = ys @ [(k, v)]"
    by (induction ys) auto
  have "fold (\<lambda>(k, v) m. AList.update k v m) xs (ys @ [(k, v)]) = (ys @ [(k, v)]) @ xs"
    using Cons.prems x by (intro Cons.IH) auto
  with u x show ?case by simp
qed

lemma Copy_eq:
  assumes "distinct (map fst (elements S))"
  shows "Copy I S = \<lparr>elements = elements S, lru = (copy (lru S))\<lparr>onEvict := Some (StatsInnerCache_onEvict I)\<rparr>\<rparr>"
proof -
  have "fold (\<lambda>(tblID', element) m. AList.update tblID' (lruMapElement_copy element) m) (elements S) [] = elements S"
    using fold_update_append[OF assms, of "[]"] by (simp add: lruMapElement_copy_id)
  then show ?thesis by (simp add: Copy_def NewStatsLruCache_def Let_def)
qed

lemma cache_inv_Copy: assumes inv: "cache_inv I S" shows "cache_inv I (Copy I S)"
proof -
  from inv have ok: "lru_ok I (lru S)" and cap: "\<not> word_sless (capacity (lru S)) 1"
    and o: "owned (keys_of (tables (elements S))) (lru S)" and di: "distinct (map fst (elements S))"
    by (simp_all add: cache_inv_def)
  let ?c = "copy (lru S) :: ('a, outer) innerItemLruCache"
  have okc: "lru_ok I ?c" by (rule lru_ok_copy)
  have oc: "owned (keys_of (tables (elements S))) ?c" by (rule owned_copy[OF o])
  have "lru_ok I (?c\<lparr>onEvict := Some (StatsInnerCache_onEvict I)\<rparr>)"
    by (rule lru_ok_cong[OF okc]) simp_all
  moreover have "owned (keys_of (tables (elements S))) (?c\<lparr>onEvict := Some (StatsInnerCache_onEvict I)\<rparr>)"
    by (rule owned_cong[OF oc]) simp_all
  ultimately show ?thesis
    using cap di by (simp add: Copy_eq[OF di] cache_inv_def copy_capacity)
qed

lemma tables_update_same: "map_of s t = Some el \<Longrightarrow> tbl el' = tbl el \<Longrightarrow> tables (AList.update t el' s) = tables s"
  by (simp add: tables_update update_same map_of_tables)

lemma freshTableCost_frame:
  assumes inv: "cache_inv I S" and run: "freshTableCost I t (S, h) = Some (Ok (S', h'))"
  shows "cache_inv I S' \<and> tables (elements S') = tables (elements S) \<and> capacity (lru S') = capacity (lru S)"
proof (cases "map_of (elements S) t")
  case None
  with run inv show ?thesis by (simp add: freshTableCost_def)
next
  case (Some el)
  let ?m = "Table_MemoryUsage I h (tbl el)"
  let ?S1 = "S\<lparr>elements := AList.update t (el\<lparr>tblMemUsage := ?m\<rparr>) (elements S)\<rparr>"
  have t1: "tables (elements ?S1) = tables (elements S)"
    using tables_update_same[OF Some, of "el\<lparr>tblMemUsage := ?m\<rparr>"] by simp
  have i1: "cache_inv I ?S1"
    using inv t1 by (simp add: cache_inv_def distinct_update)
  from run Some have r: "StatsInnerCache_put I t (tbl el) ?m False (?S1, h) = Some (Ok (S', h'))"
    by (simp add: freshTableCost_def Let_def)
  note f = StatsInnerCache_put_frame[OF i1 r]
  from f have "tables (elements S') = AList.update t (tbl el) (tables (elements S))" using t1 by simp
  also have "\<dots> = tables (elements S)" by (simp add: update_same map_of_tables Some)
  finally show ?thesis using f by simp
qed

lemma TotalCost_loop_frame:
  assumes inv: "cache_inv I S" and run: "TotalCost_loop I ks tc (S, h) = Some (Ok (n, (S', h')))"
  shows "cache_inv I S' \<and> tables (elements S') = tables (elements S) \<and> capacity (lru S') = capacity (lru S)"
  using inv run
proof (induction ks arbitrary: S h tc)
  case Nil
  then show ?case by simp
next
  case (Cons k ks)
  from Cons.prems(2) obtain S1 h1 tc1 where
    f: "freshTableCost I k (S, h) = Some (Ok (S1, h1))" and
    r: "TotalCost_loop I ks tc1 (S1, h1) = Some (Ok (n, (S', h')))"
    by (auto split: option.splits result.splits prod.splits)
  note 1 = freshTableCost_frame[OF Cons.prems(1) f]
  from 1 have i1: "cache_inv I S1" by simp
  from Cons.IH[OF i1 r] 1 show ?case by simp
qed

lemma TotalCost_frame:
  assumes inv: "cache_inv I S" and run: "TotalCost I (S, h) = Some (Ok (n, (S', h')))"
  shows "cache_inv I S' \<and> tables (elements S') = tables (elements S) \<and> capacity (lru S') = capacity (lru S)"
  using TotalCost_loop_frame[OF inv, of "map fst (elements S)" 0 h n S' h'] run
  by (simp add: TotalCost_def)

lemma cache_inv_table:
  assumes inv: "cache_inv I S" and el: "map_of (elements S) t = Some el"
      and cols: "fst ` set (Columns (tbl el)) \<subseteq> fst ` set (Columns tb)"
      and idxs: "fst ` set (Indices (tbl el)) \<subseteq> fst ` set (Indices tb)"
  shows "cache_inv I (S\<lparr>elements := AList.update t (el\<lparr>tbl := tb\<rparr>) (elements S)\<rparr>)"
proof -
  let ?ts = "tables (elements S)"
  from inv have o: "owned (keys_of ?ts) (lru S)" by (simp add: cache_inv_def)
  have "owned (keys_of (AList.update t tb ?ts)) (lru S)"
  proof (rule owned_mono[OF o], rule subsetI)
    fix k assume k: "k \<in> keys_of ?ts"
    obtain t' b' i' where kk: "k = (t', b', i')" by (cases k)
    show "k \<in> keys_of (AList.update t tb ?ts)"
    proof (cases "t' = t")
      case True
      from k have "i' \<in> fst ` set (items_of (tbl el) b')"
        unfolding kk True by (simp add: in_keys_of map_of_tables el)
      with cols idxs have "i' \<in> fst ` set (items_of tb b')"
        by (cases b') (auto simp: items_of_def)
      with True kk show ?thesis by (simp add: keys_of_update)
    next
      case False
      with k kk show ?thesis by (simp add: keys_of_update)
    qed
  qed
  with inv show ?thesis by (simp add: cache_inv_def tables_update distinct_update)
qed

lemma reachable_keeping_inv: "reachable_keeping I st \<Longrightarrow> cache_inv I (fst st)"
proof (induction rule: reachable_keeping.induct)
  case (k_new c h)
  show ?case by (simp add: cache_inv_new)
next
  case (k_Put st tblID' tbl' moveLRUFront st')
  obtain S h where st: "st = (S, h)" by (cases st)
  obtain S' h' where st': "st' = (S', h')" by (cases st')
  from Put_frame[of I S tblID' tbl' moveLRUFront h S' h'] k_Put st st' show ?case by simp
next
  case (k_Get S h tblID' moveLRUFront)
  then show ?case by (simp add: cache_inv_Get)
next
  case (k_Del S h tblID')
  then show ?case by (simp add: cache_inv_Del)
next
  case (k_SetCapacity st c st')
  obtain S h where st: "st = (S, h)" by (cases st)
  obtain S' h' where st': "st' = (S', h')" by (cases st')
  from SetCapacity_frame[of I S c h S' h'] k_SetCapacity st st' show ?case by simp
next
  case (k_TotalCost st n st')
  obtain S h where st: "st = (S, h)" by (cases st)
  obtain S' h' where st': "st' = (S', h')" by (cases st')
  from TotalCost_frame[of I S h n S' h'] k_TotalCost st st' show ?case by simp
next
  case (k_Copy S h)
  then show ?case by (simp add: cache_inv_Copy)
next
  case (k_store S h h')
  then show ?case by simp
next
  case (k_table S h tblID' element tbl')
  then show ?case by (simp add: cache_inv_table)
qed

lemma owned_UNIV: "owned UNIV c"
  by (simp add: owned_def)

lemma update_wf:
  fixes c :: "('i, outer) innerItemLruCache"
  assumes run: "putItems I t b mv mems items ((if map_of s t \<noteq> None then delOld t b items c else c), h, s)
                  = Some (Ok (c', h', s'))"
      and ok: "lru_ok I c" and cbk: "onEvict c = Some (StatsInnerCache_onEvict I)"
  shows "lru_ok I c' \<and> onEvict c' = Some (StatsInnerCache_onEvict I) \<and> capacity c' = capacity c \<and>
         tables s' = tables s"
proof -
  let ?c0 = "if map_of s t \<noteq> None then delOld t b items c else c"
  have c0: "lru_ok I ?c0 \<and> onEvict ?c0 = onEvict c \<and> capacity ?c0 = capacity c"
    using delOld_frame[OF ok owned_UNIV, of t b items] ok by simp
  let ?P = "\<lambda>x. tables x = tables s"
  have "lru_ok I (fst (c', h', s')) \<and>
        owned (UNIV \<union> {(t, b, i) | i. i \<in> fst ` set items}) (fst (c', h', s')) \<and>
        onEvict (fst (c', h', s')) = onEvict (fst (?c0, h, s)) \<and>
        capacity (fst (c', h', s')) = capacity (fst (?c0, h, s)) \<and> ?P (snd (snd (c', h', s'))) \<and>
        (items \<noteq> [] \<longrightarrow> \<not> over (fst (c', h', s')) \<or> length (cache (fst (c', h', s'))) \<le> 1)"
  proof (rule putItems_frame[where P = ?P, OF run])
    show "lru_ok I (fst (?c0, h, s))" using c0 by simp
    show "owned UNIV (fst (?c0, h, s))" by (rule owned_UNIV)
    show "?P (snd (snd (?c0, h, s)))" by simp
    fix f t' h'' s''
    assume "onEvict (fst (?c0, h, s)) = Some f" and p: "?P s''"
    with c0 cbk have "f = StatsInnerCache_onEvict I" by simp
    with p show "?P (f t' h'' s'')" by (simp add: tables_onEvict)
  qed
  then show ?thesis using c0 cbk by simp
qed

lemma StatsInnerCache_put_wf:
  assumes inv: "cache_wf I S" and run: "StatsInnerCache_put I t tb m mv (S, h) = Some (Ok (S', h'))"
  shows "cache_wf I S' \<and> capacity (lru S') = capacity (lru S) \<and>
         tables (elements S') = AList.update t tb (tables (elements S))"
proof -
  from StatsInnerCache_put_Ok[OF run] obtain S1 h1 S2 where
    uc: "updateColumns I t tb m mv (S, h) = Some (Ok (S1, h1))" and
    ui: "updateIndices I t tb m mv (S1, h1) = Some (Ok (S2, h'))" and
    l: "lru S' = lru S2" and
    e: "elements S' = AList.update t \<lparr>tbl = tb, tblMemUsage = Table_MemoryUsage I h' tb\<rparr> (elements S2)"
    by blast
  from inv have ok: "lru_ok I (lru S)" and cb: "onEvict (lru S) = Some (StatsInnerCache_onEvict I)"
    and cap: "\<not> word_sless (capacity (lru S)) 1" and di: "distinct (map fst (elements S))"
    by (simp_all add: cache_wf_def)
  note 1 = update_wf[OF updateColumns_Ok[OF uc] ok cb]
  from 1 have ok1: "lru_ok I (lru S1)" and cb1: "onEvict (lru S1) = Some (StatsInnerCache_onEvict I)"
    by simp_all
  note 2 = update_wf[OF updateIndices_Ok[OF ui] ok1 cb1]
  have t: "tables (elements S') = AList.update t tb (tables (elements S))"
    using 1 2 by (simp add: e tables_update)
  have "distinct (map fst (elements S'))"
  proof -
    from 1 2 have "tables (elements S2) = tables (elements S)" by simp
    from tables_distinct[OF this] di show ?thesis by (simp add: e distinct_update)
  qed
  then have "cache_wf I S'" using 1 2 cap by (simp add: cache_wf_def l)
  with 1 2 t show ?thesis by (simp add: l)
qed

lemma Put_wf:
  assumes inv: "cache_wf I S" and run: "Put I t tb mv (S, h) = Some (Ok (S', h'))"
  shows "cache_wf I S'"
  using StatsInnerCache_put_wf[OF inv, of t tb "Table_MemoryUsage I h tb" mv h S' h'] run
  by (simp add: Put_def)

lemma cache_inv_wf: "cache_inv I S \<Longrightarrow> cache_wf I S"
  by (simp add: cache_inv_def cache_wf_def)

lemma cache_wf_Get: assumes inv: "cache_wf I S" shows "cache_wf I (fst (Get S t mv))"
proof (cases "mv \<and> map_of (elements S) t \<noteq> None")
  case False
  with inv show ?thesis by (auto simp: Get_def getByQuery_def split: option.splits)
next
  case True
  then obtain el where el: "map_of (elements S) t = Some el" by auto
  let ?l1 = "fold (\<lambda>idxID c. fst (get c t idxID True)) (map fst (Indices (tbl el))) (lru S)"
  let ?l2 = "fold (\<lambda>colID c. fst (get c t colID False)) (map fst (Columns (tbl el))) ?l1"
  from inv have ok: "lru_ok I (lru S)" by (simp add: cache_wf_def)
  note 1 = fold_get_frame[OF ok owned_UNIV, of t True "map fst (Indices (tbl el))"]
  from 1 have ok1: "lru_ok I ?l1" by simp
  note 2 = fold_get_frame[OF ok1 owned_UNIV, of t False "map fst (Columns (tbl el))"]
  have g: "fst (Get S t mv) = S\<lparr>lru := ?l2\<rparr>"
    using True el by (simp add: Get_def getByQuery_def Let_def)
  show ?thesis using inv 1 2 unfolding g by (simp add: cache_wf_def)
qed

lemma cache_wf_Del: assumes inv: "cache_wf I S" shows "cache_wf I (Del S t)"
proof (cases "map_of (elements S) t")
  case None
  with inv show ?thesis by (simp add: Del_def)
next
  case (Some el)
  let ?l1 = "fold (\<lambda>idxID c. del c t idxID True) (map fst (Indices (tbl el))) (lru S)"
  let ?l2 = "fold (\<lambda>colID c. del c t colID False) (map fst (Columns (tbl el))) ?l1"
  from inv have ok: "lru_ok I (lru S)" by (simp add: cache_wf_def)
  note 1 = fold_del_ok[OF ok owned_UNIV, of t True "map fst (Indices (tbl el))"]
  note 2 = fold_del_ok[OF 1(1) owned_UNIV, of t False "map fst (Columns (tbl el))"]
  have d: "Del S t = \<lparr>elements = AList.delete t (elements S), lru = ?l2\<rparr>"
    using Some by (simp add: Del_def Let_def)
  from inv 2(1) 2(3) 2(4) 1(3) 1(4) show ?thesis unfolding d by (simp add: cache_wf_def distinct_delete)
qed

lemma SetCapacity_wf:
  assumes inv: "cache_wf I S" and run: "SetCapacity I n (S, h) = Some (S', h')"
  shows "cache_wf I S'"
proof -
  let ?c = "(lru S)\<lparr>capacity := (if word_sless n 1 then MaxInt64 else n)\<rparr>"
  let ?P = "\<lambda>x. tables x = tables (elements S)"
  from run have r: "evictIfNeeded I (?c, h, elements S) = Some (lru S', h', elements S')"
    by (auto simp: SetCapacity_def setCapacity_def split: option.splits prod.splits)
  from inv have ok: "lru_ok I (lru S)" and cb: "onEvict (lru S) = Some (StatsInnerCache_onEvict I)"
    and di: "distinct (map fst (elements S))"
    by (simp_all add: cache_wf_def)
  have okc: "lru_ok I ?c" by (rule lru_ok_cong[OF ok]) simp_all
  have f: "lru_ok I (fst (lru S', h', elements S')) \<and> owned UNIV (fst (lru S', h', elements S')) \<and>
         onEvict (fst (lru S', h', elements S')) = onEvict (fst (?c, h, elements S)) \<and>
         capacity (fst (lru S', h', elements S')) = capacity (fst (?c, h, elements S)) \<and>
         ?P (snd (snd (lru S', h', elements S'))) \<and>
         (\<not> over (fst (lru S', h', elements S')) \<or> length (cache (fst (lru S', h', elements S'))) \<le> 1)"
  proof (rule evictIfNeeded_frame[where P = ?P and A = UNIV, OF r])
    show "lru_ok I (fst (?c, h, elements S))" using okc by simp
    show "owned UNIV (fst (?c, h, elements S))" by (rule owned_UNIV)
    show "?P (snd (snd (?c, h, elements S)))" by simp
    fix f t' h'' s''
    assume "onEvict (fst (?c, h, elements S)) = Some f" and p: "?P s''"
    with cb have "f = StatsInnerCache_onEvict I" by simp
    with p show "?P (f t' h'' s'')" by (simp add: tables_onEvict)
  qed
  then have t: "tables (elements S') = tables (elements S)" by simp
  from tables_distinct[OF t] di have "distinct (map fst (elements S'))" by simp
  with f cb not_sless_capacity[of n] show ?thesis by (simp add: cache_wf_def)
qed

lemma cache_wf_Copy: assumes inv: "cache_wf I S" shows "cache_wf I (Copy I S)"
proof -
  from inv have cap: "\<not> word_sless (capacity (lru S)) 1" and di: "distinct (map fst (elements S))"
    by (simp_all add: cache_wf_def)
  let ?c = "copy (lru S) :: ('a, outer) innerItemLruCache"
  have okc: "lru_ok I ?c" by (rule lru_ok_copy)
  have "lru_ok I (?c\<lparr>onEvict := Some (StatsInnerCache_onEvict I)\<rparr>)"
    by (rule lru_ok_cong[OF okc]) simp_all
  then show ?thesis
    using cap di by (simp add: Copy_eq[OF di] cache_wf_def copy_capacity)
qed

lemma cache_wf_update:
  assumes inv: "cache_wf I S"
  shows "cache_wf I (S\<lparr>elements := AList.update t el (elements S)\<rparr>)"
  using inv by (simp add: cache_wf_def distinct_update)

lemma freshTableCost_wf:
  assumes inv: "cache_wf I S" and run: "freshTableCost I t (S, h) = Some (Ok (S', h'))"
  shows "cache_wf I S'"
proof (cases "map_of (elements S) t")
  case None
  with run inv show ?thesis by (simp add: freshTableCost_def)
next
  case (Some el)
  let ?m = "Table_MemoryUsage I h (tbl el)"
  let ?S1 = "S\<lparr>elements := AList.update t (el\<lparr>tblMemUsage := ?m\<rparr>) (elements S)\<rparr>"
  have i1: "cache_wf I ?S1" by (rule cache_wf_update[OF inv])
  from run Some have r: "StatsInnerCache_put I t (tbl el) ?m False (?S1, h) = Some (Ok (S', h'))"
    by (simp add: freshTableCost_def Let_def)
  from StatsInnerCache_put_wf[OF i1 r] show ?thesis by simp
qed

lemma TotalCost_loop_wf:
  assumes inv: "cache_wf I S" and run: "TotalCost_loop I ks tc (S, h) = Some (Ok (n, (S', h')))"
  shows "cache_wf I S'"
  using inv run
proof (induction ks arbitrary: S h tc)
  case Nil
  then show ?case by simp
next
  case (Cons k ks)
  from Cons.prems(2) obtain S1 h1 tc1 where
    f: "freshTableCost I k (S, h) = Some (Ok (S1, h1))" and
    r: "TotalCost_loop I ks tc1 (S1, h1) = Some (Ok (n, (S', h')))"
    by (auto split: option.splits result.splits prod.splits)
  from Cons.IH[OF freshTableCost_wf[OF Cons.prems(1) f] r] show ?case .
qed

lemma TotalCost_wf:
  assumes inv: "cache_wf I S" and run: "TotalCost I (S, h) = Some (Ok (n, (S', h')))"
  shows "cache_wf I S'"
  using TotalCost_loop_wf[OF inv, of "map fst (elements S)" 0 h n S' h'] run
  by (simp add: TotalCost_def)

lemma reachable_wf: "reachable I st \<Longrightarrow> cache_wf I (fst st)"
proof (induction rule: reachable.induct)
  case (c_new c h)
  show ?case by (simp add: cache_inv_wf[OF cache_inv_new])
next
  case (c_Put st tblID' tbl' moveLRUFront st')
  obtain S h where st: "st = (S, h)" by (cases st)
  obtain S' h' where st': "st' = (S', h')" by (cases st')
  from Put_wf[of I S tblID' tbl' moveLRUFront h S' h'] c_Put st st' show ?case by simp
next
  case (c_Get S h tblID' moveLRUFront)
  then show ?case by (simp add: cache_wf_Get)
next
  case (c_Del S h tblID')
  then show ?case by (simp add: cache_wf_Del)
next
  case (c_SetCapacity st c st')
  obtain S h where st: "st = (S, h)" by (cases st)
  obtain S' h' where st': "st' = (S', h')" by (cases st')
  from SetCapacity_wf[of I S c h S' h'] c_SetCapacity st st' show ?case by simp
next
  case (c_TotalCost st n st')
  obtain S h where st: "st = (S, h)" by (cases st)
  obtain S' h' where st': "st' = (S', h')" by (cases st')
  from TotalCost_wf[of I S h n S' h'] c_TotalCost st st' show ?case by simp
next
  case (c_Copy S h)
  then show ?case by (simp add: cache_wf_Copy)
next
  case (c_store S h h')
  then show ?case by simp
next
  case (c_table S h tblID' element tbl')
  then show ?case by (simp add: cache_wf_update)
qed

lemma reachable_keeping_reachable: "reachable_keeping I st \<Longrightarrow> reachable I st"
  by (induction rule: reachable_keeping.induct) (auto intro: reachable.intros)

lemma evicted_is_free_listItem: "evicted_is_free listItem"
  by (simp add: evicted_is_free_def listItem_def)

lemma parked_reached:
  "put listItem 1 1 False 4 (mem 20) True False (newInnerLruCache 10, store0, ()) = Some parked"
  by (simp add: parked_def run_defs zeroItem_def)

subsection \<open>C1: trackingCost is the sum of the stored usages\<close>

text \<open>
  Claim C1. Let every item that is all evicted report tracking usage 0. Then in every
  state an inner LRU can reach, \<open>trackingCost\<close> is the sum, over the elements of the
  list, of the tracking usage the element stores (in \<open>int64\<close> arithmetic); the same
  holds for the inner LRU of every state a cache can reach. Moreover each of \<open>get\<close>,
  \<open>put\<close>, \<open>del\<close>, \<open>setCapacity\<close> and \<open>evictIfNeeded\<close> takes a well-formed LRU in which
  the equality holds to one in which it holds.
\<close>

theorem trackingCost_is_sum:
  assumes free: "evicted_is_free I"
  shows "(lru_reachable I st \<longrightarrow>
            trackingCost (fst st) =
              sum_list (map (\<lambda>e. TrackingMemUsage (innerMemUsage (nodes (fst st) e))) (cache (fst st)))) \<and>
         (reachable I cst \<longrightarrow>
            Cost (fst cst) =
              sum_list (map (\<lambda>e. TrackingMemUsage (innerMemUsage (nodes (lru (fst cst)) e))) (cache (lru (fst cst))))) \<and>
         (lru_inv c \<and> trackingCost c = storedSum c \<longrightarrow>
            (let c' = fst (get c t i b) in lru_inv c' \<and> trackingCost c' = storedSum c') \<and>
            (let c' = del c t i b in lru_inv c' \<and> trackingCost c' = storedSum c') \<and>
            (\<forall>st'. put I t i b item m needEvict needMove (c, h, s) = Some st' \<longrightarrow>
                   lru_inv (fst st') \<and> trackingCost (fst st') = storedSum (fst st')) \<and>
            (\<forall>st'. setCapacity I n (c, h, s) = Some st' \<longrightarrow>
                   lru_inv (fst st') \<and> trackingCost (fst st') = storedSum (fst st')) \<and>
            (\<forall>st'. evictIfNeeded I (c, h, s) = Some st' \<longrightarrow>
                   lru_inv (fst st') \<and> trackingCost (fst st') = storedSum (fst st')))"
proof -
  have 1: "trackingCost (fst st) =
              sum_list (map (\<lambda>e. TrackingMemUsage (innerMemUsage (nodes (fst st) e))) (cache (fst st)))"
    if "lru_reachable I st"
    using lru_ok_cost[OF lru_reachable_ok[OF that] free] by (simp add: storedSum_def storedMem_def)
  have 2: "Cost (fst cst) =
              sum_list (map (\<lambda>e. TrackingMemUsage (innerMemUsage (nodes (lru (fst cst)) e))) (cache (lru (fst cst))))"
    if "reachable I cst"
    using lru_ok_cost[OF _ free, of "lru (fst cst)"] reachable_wf[OF that]
    by (simp add: storedSum_def storedMem_def cache_wf_def Cost_def)
  have ok: "lru_ok I c" if "lru_inv c \<and> trackingCost c = storedSum c"
    using that by (simp add: lru_ok_def)
  have 3: "(let c' = fst (get c t i b) in lru_inv c' \<and> trackingCost c' = storedSum c')"
    if "lru_inv c \<and> trackingCost c = storedSum c"
    using lru_ok_get[OF ok[OF that], of t i b] free by (simp add: lru_ok_def)
  have 4: "(let c' = del c t i b in lru_inv c' \<and> trackingCost c' = storedSum c')"
    if "lru_inv c \<and> trackingCost c = storedSum c"
    using lru_ok_del[OF ok[OF that], of t i b] free by (simp add: lru_ok_def)
  have 5: "lru_inv (fst st') \<and> trackingCost (fst st') = storedSum (fst st')"
    if "lru_inv c \<and> trackingCost c = storedSum c" "put I t i b item m needEvict needMove (c, h, s) = Some st'" for st'
    using lru_ok_put[OF that(2)] ok[OF that(1)] free by (simp add: lru_ok_def)
  have 6: "lru_inv (fst st') \<and> trackingCost (fst st') = storedSum (fst st')"
    if "lru_inv c \<and> trackingCost c = storedSum c" "setCapacity I n (c, h, s) = Some st'" for st'
    using lru_ok_setCapacity[OF that(2)] ok[OF that(1)] free by (simp add: lru_ok_def)
  have 7: "lru_inv (fst st') \<and> trackingCost (fst st') = storedSum (fst st')"
    if "lru_inv c \<and> trackingCost c = storedSum c" "evictIfNeeded I (c, h, s) = Some st'" for st'
    using lru_ok_evictIfNeeded[OF that(2)] ok[OF that(1)] free by (simp add: lru_ok_def)
  from 1 2 3 4 5 6 7 show ?thesis by blast
qed

theorem trackingCost_is_sum_witness:
  "evicted_is_free listItem \<and> lru_reachable listItem parked \<and> trackingCost (fst parked) = 15 \<and>
   sum_list (map (\<lambda>e. TrackingMemUsage (innerMemUsage (nodes (fst parked) e))) (cache (fst parked))) = 15"
proof -
  have r: "lru_reachable listItem parked"
    by (rule r_put[OF r_new parked_reached])
  have c: "trackingCost (fst parked) = 15" by (simp add: parked_def)
  from trackingCost_is_sum[OF evicted_is_free_listItem, of parked, THEN conjunct1] r
  have "trackingCost (fst parked) =
          sum_list (map (\<lambda>e. TrackingMemUsage (innerMemUsage (nodes (fst parked) e))) (cache (fst parked)))"
    by (rule mp)
  with r c evicted_is_free_listItem show ?thesis by simp
qed

lemma Put_new_runs:
  "\<exists>S h. Put listItem 1 (table [(1, 1), (2, 2)] []) False (NewStatsLruCache listItem 100, store0) = Some (Ok (S, h)) \<and>
         Cost S = 40 \<and> cache (lru S) = [2, 1] \<and> tblID (nodes (lru S) 2) = 1 \<and> Keys S = [1] \<and>
         lookup3 (lru_elements (lru S)) 1 False 2 = Some 2"
  by (simp add: run_defs Keys_def)

subsection \<open>C10: the inner LRU holds entries of cached tables only\<close>

text \<open>
  Claim C10. In every state a cache reaches by its public operations (\<open>Put\<close>, \<open>Del\<close>,
  \<open>Get\<close>, \<open>SetCapacity\<close>, \<open>TotalCost\<close>, \<open>Copy\<close>) while the callers take no ID out of the
  \<open>Columns\<close> or \<open>Indices\<close> of a table the cache holds, every element of the list of the
  inner LRU, and every element its index holds, carries the ID of a table that has an
  entry in the outer map.
\<close>

theorem inner_entries_have_outer_entry:
  assumes "reachable_keeping I (S, h)"
  shows "(\<forall>e \<in> set (cache (lru S)). map_of (elements S) (tblID (nodes (lru S) e)) \<noteq> None) \<and>
         (\<forall>t b i e. lookup3 (lru_elements (lru S)) t b i = Some e \<longrightarrow> map_of (elements S) t \<noteq> None)"
proof -
  from reachable_keeping_inv[OF assms] have inv: "lru_inv (lru S)"
    and o: "owned (keys_of (tables (elements S))) (lru S)"
    by (simp_all add: cache_inv_def lru_ok_def)
  have 1: "map_of (elements S) (tblID (nodes (lru S) e)) \<noteq> None" if "e \<in> set (cache (lru S))" for e
  proof -
    from ownedD[OF o that] have "(tblID (nodes (lru S) e), isIndex (nodes (lru S) e), itemID (nodes (lru S) e))
        \<in> keys_of (tables (elements S))" by (simp add: keyOf_def)
    then show ?thesis by (auto simp: in_keys_of map_of_tables)
  qed
  have 2: "map_of (elements S) t \<noteq> None" if "lookup3 (lru_elements (lru S)) t b i = Some e" for t b i e
  proof -
    from that have "lookupK (lru_elements (lru S)) (t, b, i) = Some e" by (simp add: lookupK_def)
    from lru_inv_lookup[OF inv this] have "e \<in> set (cache (lru S))" and "tblID (nodes (lru S) e) = t"
      by (simp_all add: keyOf_def)
    with 1[of e] show ?thesis by simp
  qed
  from 1 2 show ?thesis by blast
qed

theorem inner_entries_have_outer_entry_witness:
  "\<exists>S h. reachable_keeping listItem (S, h) \<and> cache (lru S) = [2, 1] \<and> tblID (nodes (lru S) 2) = 1 \<and>
         map_of (elements S) 1 \<noteq> None"
proof -
  from Put_new_runs obtain S h where
    p: "Put listItem 1 (table [(1, 1), (2, 2)] []) False (NewStatsLruCache listItem 100, store0) = Some (Ok (S, h))"
    and c: "cache (lru S) = [2, 1]" and t: "tblID (nodes (lru S) 2) = 1"
    by blast
  have r: "reachable_keeping listItem (S, h)" by (rule k_Put[OF k_new p])
  from inner_entries_have_outer_entry[OF r] c have "map_of (elements S) (tblID (nodes (lru S) 2)) \<noteq> None"
    by simp
  with r c t show ?thesis by auto
qed

text \<open>
  Without the condition on the callers the claim fails. \<open>Put(1, tb)\<close> with the one
  column 1 gives \<open>held\<close>; the caller deletes column 1 from \<open>tb\<close>, the table the entry
  points to; \<open>Del(1)\<close> ranges over the maps of the table as they are now, deletes
  nothing from the inner LRU and drops the outer entry. In \<open>orphaned\<close> the element of
  column 1 is in the list and in the index, with cost 20, and table 1 has no entry.
\<close>

theorem inner_entries_have_outer_entry_counterexample:
  "Put listItem 1 (table [(1, 1)] []) False (NewStatsLruCache listItem 100, store0) = Some (Ok (held, store0)) \<and>
   map_of (elements held) 1 = Some held_entry \<and>
   reachable listItem (orphaned, store0) \<and>
   cache (lru orphaned) = [1] \<and> tblID (nodes (lru orphaned) 1) = 1 \<and>
   lookup3 (lru_elements (lru orphaned)) 1 False 1 = Some 1 \<and>
   map_of (elements orphaned) 1 = None \<and> elements orphaned = [] \<and> Cost orphaned = 20"
proof -
  have p: "Put listItem 1 (table [(1, 1)] []) False (NewStatsLruCache listItem 100, store0) = Some (Ok (held, store0))"
    by (simp add: run_defs held_def held_entry_def)
  have e: "map_of (elements held) 1 = Some held_entry" by (simp add: held_def)
  have "reachable listItem (held, store0)" by (rule c_Put[OF c_new p])
  from c_Del[OF c_table[OF this e, of "table [] []"], of 1]
  have r: "reachable listItem (orphaned, store0)" by (simp add: orphaned_def)
  have o: "orphaned = held\<lparr>elements := []\<rparr>"
    by (simp add: orphaned_def Del_def held_def held_entry_def table_def)
  from p e r show ?thesis unfolding o by (simp add: held_def lookup3_def Cost_def)
qed

lemma onEvict_map_fst: "map fst (StatsInnerCache_onEvict I t h s) = map fst s"
  using tables_onEvict[of I t h s] map_fst_tables[of "StatsInnerCache_onEvict I t h s"] map_fst_tables[of s]
  by simp

lemma evictIfNeeded_outer:
  fixes st :: "('i, 's) lru_state"
  assumes run: "evictIfNeeded I st = Some st'" and P: "P (snd (snd st))"
      and cb: "\<And>f t h s. onEvict (fst st) = Some f \<Longrightarrow> P s \<Longrightarrow> P (f t h s)"
  shows "P (snd (snd st'))"
proof -
  let ?R = "\<lambda>(cur :: elem option) (st1 :: ('i, 's) lru_state). onEvict (fst st1) = onEvict (fst st) \<and> P (snd (snd st1))"
  from run have r: "evictLoop I (Back (cache (fst st))) st = Some st'" by (simp add: evictIfNeeded_def)
  have "\<exists>cur'. ?R cur' st' \<and> (cur' = None \<or> \<not> over (fst st'))"
  proof (rule evictLoop_rule[where R = ?R, OF r])
    show "?R (Back (cache (fst st))) st" using P by simp
  next
    fix e c h s prev st1
    assume R: "?R (Some e) (c, h, s)" and es: "evictStep I e (c, h, s) = (prev, st1)"
    have "P (snd (snd (snd (evictStep I e (c, h, s)))))"
    proof (cases "onEvict c")
      case None
      with R show ?thesis by (simp add: evictStep_outer)
    next
      case (Some f)
      with R have f: "onEvict (fst st) = Some f" by simp
      from R have p: "P s" by simp
      have "snd (snd (snd (evictStep I e (c, h, s)))) = f (tblID (stepItem (c, h, s) e)) (stepHeap I (c, h, s) e) s"
        by (simp add: evictStep_outer Some)
      with cb[OF f p] show ?thesis by simp
    qed
    moreover have "onEvict (fst (snd (evictStep I e (c, h, s)))) = onEvict (fst st)"
      using R by (simp add: evictStep_onEvict)
    ultimately show "?R prev st1" by (simp add: es)
  qed
  then show ?thesis by simp
qed

subsection \<open>C6: eviction keeps the outer entries\<close>

text \<open>
  Claim C6. The callback \<open>onEvict\<close> of the outer cache writes the usage of the table,
  computed anew, to the entry of the table and nothing else: the keys of the outer map
  and their order, the table of every entry and every other entry stay as they are,
  and for a table that has no entry nothing changes. Hence a pass of \<open>evictIfNeeded\<close>
  that returns, in an inner LRU with this callback, leaves the keys of the outer map
  and the table of every entry as they were: every table ID present before is present
  after, and \<open>Len()\<close> is the same. So it is after \<open>SetCapacity\<close>.
\<close>

theorem eviction_keeps_outer_entries:
  "map fst (StatsInnerCache_onEvict I t h s) = map fst s \<and>
   tables (StatsInnerCache_onEvict I t h s) = tables s \<and>
   (\<forall>k. k \<noteq> t \<longrightarrow> map_of (StatsInnerCache_onEvict I t h s) k = map_of s k) \<and>
   (\<forall>el. map_of s t = Some el \<longrightarrow>
      map_of (StatsInnerCache_onEvict I t h s) t = Some (el\<lparr>tblMemUsage := Table_MemoryUsage I h (tbl el)\<rparr>)) \<and>
   (map_of s t = None \<longrightarrow> StatsInnerCache_onEvict I t h s = s) \<and>
   (\<forall>c' h' s'. onEvict c = Some (StatsInnerCache_onEvict I) \<longrightarrow>
      evictIfNeeded I (c, h, s) = Some (c', h', s') \<longrightarrow>
      map fst s' = map fst s \<and> tables s' = tables s \<and> length s' = length s \<and>
      (\<forall>k. (map_of s' k = None) = (map_of s k = None))) \<and>
   (\<forall>S' h'. onEvict (lru S) = Some (StatsInnerCache_onEvict I) \<longrightarrow>
      SetCapacity I n (S, h) = Some (S', h') \<longrightarrow>
      Keys S' = Keys S \<and> Len S' = Len S \<and> tables (elements S') = tables (elements S))"
proof -
  have 1: "\<forall>k. k \<noteq> t \<longrightarrow> map_of (StatsInnerCache_onEvict I t h s) k = map_of s k"
    by (cases "map_of s t") (simp_all add: StatsInnerCache_onEvict_def update_conv')
  have 2: "\<forall>el. map_of s t = Some el \<longrightarrow>
      map_of (StatsInnerCache_onEvict I t h s) t = Some (el\<lparr>tblMemUsage := Table_MemoryUsage I h (tbl el)\<rparr>)"
    by (simp add: StatsInnerCache_onEvict_def update_conv')
  have 3: "map_of s t = None \<longrightarrow> StatsInnerCache_onEvict I t h s = s"
    by (simp add: StatsInnerCache_onEvict_def)
  have 4: "map fst s' = map fst s \<and> tables s' = tables s \<and> length s' = length s \<and>
      (\<forall>k. (map_of s' k = None) = (map_of s k = None))"
    if cb: "onEvict c = Some (StatsInnerCache_onEvict I)" and run: "evictIfNeeded I (c, h, s) = Some (c', h', s')"
    for c :: "('a, outer) innerItemLruCache" and c' h' s' h s
  proof -
    let ?P = "\<lambda>x. tables x = tables s"
    have "?P (snd (snd (c', h', s')))"
    proof (rule evictIfNeeded_outer[where P = ?P, OF run])
      show "?P (snd (snd (c, h, s)))" by simp
      fix f t' h'' s''
      assume "onEvict (fst (c, h, s)) = Some f" and p: "?P s''"
      with cb have "f = StatsInnerCache_onEvict I" by simp
      with p show "?P (f t' h'' s'')" by (simp add: tables_onEvict)
    qed
    then have t: "tables s' = tables s" by simp
    then have m: "map fst s' = map fst s" using map_fst_tables[of s'] map_fst_tables[of s] by simp
    then have "length s' = length s" by (metis length_map)
    with t m tables_same_None[OF t] show ?thesis by simp
  qed
  have 5: "Keys S' = Keys S \<and> Len S' = Len S \<and> tables (elements S') = tables (elements S)"
    if cb: "onEvict (lru S) = Some (StatsInnerCache_onEvict I)" and run: "SetCapacity I n (S, h) = Some (S', h')"
    for S' h'
  proof -
    let ?c = "(lru S)\<lparr>capacity := (if word_sless n 1 then MaxInt64 else n)\<rparr>"
    from run have r: "evictIfNeeded I (?c, h, elements S) = Some (lru S', h', elements S')"
      by (auto simp: SetCapacity_def setCapacity_def split: option.splits prod.splits)
    from cb have "onEvict ?c = Some (StatsInnerCache_onEvict I)" by simp
    from 4[OF this r] show ?thesis by (simp add: Keys_def Len_def)
  qed
  from tables_onEvict[of I t h s] onEvict_map_fst[of I t h s] 1 2 3 4 5 show ?thesis by blast
qed

lemma two_tables_run:
  "\<exists>S1 h1 S2 h2 S3 h3.
     Put listItem 1 (table [(1, 1)] []) False (NewStatsLruCache listItem 100, store0) = Some (Ok (S1, h1)) \<and>
     Put listItem 2 (table [(1, 2)] []) False (S1, h1) = Some (Ok (S2, h2)) \<and>
     onEvict (lru S2) = Some (StatsInnerCache_onEvict listItem) \<and>
     Keys S2 = [1, 2] \<and> Cost S2 = 40 \<and>
     SetCapacity listItem 30 (S2, h2) = Some (S3, h3) \<and>
     Cost S3 = 20 \<and> cache (lru S3) = [2] \<and> h3 1 = [] \<and>
     map_option (\<lambda>el. TotalMemUsage (tblMemUsage el)) (map_of (elements S3) 1) = Some 0"
  by (simp add: run_defs Keys_def SetCapacity_def setCapacity_def)

theorem eviction_keeps_outer_entries_witness:
  "\<exists>S h S' h'. onEvict (lru S) = Some (StatsInnerCache_onEvict listItem) \<and>
     SetCapacity listItem 30 (S, h) = Some (S', h') \<and> Cost S = 40 \<and> Cost S' = 20 \<and>
     Keys S = [1, 2] \<and> Keys S' = [1, 2] \<and> Len S' = Len S"
proof -
  from two_tables_run obtain S h S' h' where
    cb: "onEvict (lru S) = Some (StatsInnerCache_onEvict listItem)" and
    k: "Keys S = [1, 2]" and c: "Cost S = 40" and
    r: "SetCapacity listItem 30 (S, h) = Some (S', h')" and c': "Cost S' = 20"
    by blast
  note T = eviction_keeps_outer_entries[where I = listItem and S = S and n = 30 and h = h
      and t = 0 and s = "[]" and c = "lru S"]
  from T have "\<forall>S' h'. onEvict (lru S) = Some (StatsInnerCache_onEvict listItem) \<longrightarrow>
      SetCapacity listItem 30 (S, h) = Some (S', h') \<longrightarrow>
      Keys S' = Keys S \<and> Len S' = Len S \<and> tables (elements S') = tables (elements S)"
    by (elim conjE)
  with cb r have "Keys S' = Keys S \<and> Len S' = Len S" by blast
  with cb k c r c' show ?thesis by auto
qed




















subsection \<open>C9: Get after Put\<close>




subsection \<open>C7: Put on a table the cache holds\<close>




















end
